theory Spec2Isabelle
  imports Main
begin

section \<open>Results, promises and jobs\<close>

text \<open>
  The aggregator \<open>all\<close> of \<open>all.ts\<close> runs on the JavaScript job queue. The model keeps
  what the code can observe of it: a promise is pending or fulfilled, a callback registered
  with \<open>then\<close> becomes a job when its promise is fulfilled, jobs run first in, first out,
  one at a time. The environment decides when a pending promise is fulfilled (event
  \<open>Settle\<close>) and the runtime runs the job at the head of the queue (event \<open>Tick\<close>); a
  run is any interleaving of the two.
\<close>

datatype ('v, 'e) result = Ok 'v | Err 'e

fun isOk :: "('v, 'e) result \<Rightarrow> bool" where
  "isOk (Ok v) = True"
| "isOk (Err e) = False"

fun isErr :: "('v, 'e) result \<Rightarrow> bool" where
  "isErr (Ok v) = False"
| "isErr (Err e) = True"

text \<open>
  What a task does once its operation is started: its promise is already fulfilled when
  the aggregator gets it (\<open>Promise.resolve(r)\<close>), it is fulfilled later by the
  environment, or it never settles (\<open>new Promise(() => {})\<close>).
\<close>

datatype ('v, 'e) task = Resolved "('v, 'e) result" | Deferred "('v, 'e) result" | Never

fun outcome :: "('v, 'e) task \<Rightarrow> ('v, 'e) result option" where
  "outcome (Resolved r) = Some r"
| "outcome (Deferred r) = Some r"
| "outcome Never = None"

datatype ('v, 'e) promise = Pending "('v, 'e) result option" | Fulfilled "('v, 'e) result"

fun start :: "('v, 'e) task \<Rightarrow> ('v, 'e) promise" where
  "start (Resolved r) = Fulfilled r"
| "start (Deferred r) = Pending (Some r)"
| "start Never = Pending None"

fun is_pending :: "('v, 'e) promise \<Rightarrow> bool" where
  "is_pending (Pending x) = True"
| "is_pending (Fulfilled r) = False"

text \<open>The number of operations in flight: started and not yet completed.\<close>

definition in_flight :: "('v, 'e) promise list \<Rightarrow> nat" where
  "in_flight ps = length (filter is_pending ps)"

text \<open>
  An element of a JavaScript array of type \<open>any[]\<close>: an empty slot, a bare value or a
  Result. Writing past the end extends the array with empty slots.
\<close>

datatype ('v, 'e) slot = Hole | Value 'v | Outcome "('v, 'e) result"

definition put :: "nat \<Rightarrow> 'a \<Rightarrow> 'a \<Rightarrow> 'a list \<Rightarrow> 'a list" where
  "put i x hole xs =
     (if i < length xs then xs[i := x] else xs @ replicate (i - length xs) hole @ [x])"

text \<open>
  What the aggregate call resolves with: a Result (\<open>Result.ok(data)\<close>, or the failed
  task's own Result) in default mode, a bare array in settled mode.
\<close>

datatype ('v, 'e) answer = Res "(('v, 'e) slot list, 'e) result" | Arr "('v, 'e) slot list"

text \<open>Resolving a promise a second time does nothing.\<close>

definition resolve :: "'a \<Rightarrow> 'a option \<Rightarrow> 'a option" where
  "resolve a r = (case r of None \<Rightarrow> Some a | Some b \<Rightarrow> Some b)"

datatype mode = Default | Settled

datatype concurrency = Unbounded | Limit nat

datatype event = Settle nat | Tick

section \<open>allEager\<close>

text \<open>
  The state of one call of \<open>allEager\<close>: the promises handed in, the queue of
  then-callbacks whose promise is fulfilled (each with its index and the promise's
  value), and the variables \<open>data\<close> and \<open>remaining\<close> of the call.
  In settled mode the call is \<open>Promise.all(promises)\<close>, which keeps the same two
  variables (its values array and its count of remaining elements).
\<close>

record ('v, 'e) eager =
  eg_mode :: mode
  eg_promises :: "('v, 'e) promise list"
  eg_jobs :: "(nat \<times> ('v, 'e) result) list"
  eg_data :: "('v, 'e) slot list"
  eg_remaining :: int
  eg_returned :: "('v, 'e) answer option"

text \<open>The then-callbacks of the promises that are fulfilled already, in index order.\<close>

fun ready_jobs :: "nat \<Rightarrow> ('v, 'e) promise list \<Rightarrow> (nat \<times> ('v, 'e) result) list" where
  "ready_jobs i [] = []"
| "ready_jobs i (Fulfilled r # ps) = (i, r) # ready_jobs (Suc i) ps"
| "ready_jobs i (Pending x # ps) = ready_jobs (Suc i) ps"

text \<open>\<open>promises.forEach((promise, index) => promise.then(...))\<close> on a fresh buffer.\<close>

definition eager_register :: "mode \<Rightarrow> ('v, 'e) task list \<Rightarrow> ('v, 'e) eager" where
  "eager_register m ts =
     \<lparr>eg_mode = m, eg_promises = map start ts, eg_jobs = ready_jobs 0 (map start ts),
      eg_data = replicate (length ts) Hole, eg_remaining = int (length ts),
      eg_returned = None\<rparr>"

definition eager_return :: "mode \<Rightarrow> ('v, 'e) answer \<Rightarrow> ('v, 'e) eager" where
  "eager_return m a =
     \<lparr>eg_mode = m, eg_promises = [], eg_jobs = [], eg_data = [], eg_remaining = 0,
      eg_returned = Some a\<rparr>"

text \<open>\<open>Promise.all(promises)\<close>: an empty list resolves at once with the empty array.\<close>

definition promise_all :: "('v, 'e) task list \<Rightarrow> ('v, 'e) eager" where
  "promise_all ts =
     (if length ts = 0 then eager_return Settled (Arr []) else eager_register Settled ts)"

text \<open>\<open>allEager\<close> of \<open>src/all.ts\<close>: settled mode first, then the empty list.\<close>

definition allEager :: "('v, 'e) task list \<Rightarrow> mode \<Rightarrow> ('v, 'e) eager" where
  "allEager ts m =
     (if m = Settled then promise_all ts
      else if length ts = 0 then eager_return m (Res (Ok []))
      else eager_register m ts)"

text \<open>\<open>allEager\<close> of the other copy of the file: the empty list first.\<close>

definition allEager_alt :: "('v, 'e) task list \<Rightarrow> mode \<Rightarrow> ('v, 'e) eager" where
  "allEager_alt ts m =
     (if length ts = 0 then eager_return m (if m = Settled then Arr [] else Res (Ok []))
      else if m = Settled then promise_all ts
      else eager_register m ts)"

text \<open>
  The callback of promise \<open>index\<close>, called with its \<open>result\<close>. Default mode is lines
  45 to 55 of \<open>allEager\<close>; settled mode is the element function of \<open>Promise.all\<close>.
\<close>

definition eager_then :: "nat \<Rightarrow> ('v, 'e) result \<Rightarrow> ('v, 'e) eager \<Rightarrow> ('v, 'e) eager" where
  "eager_then i r s =
     (if eg_mode s = Settled then
        (let s1 = s\<lparr>eg_data := put i (Outcome r) Hole (eg_data s),
                     eg_remaining := eg_remaining s - 1\<rparr>
         in if eg_remaining s1 = 0
            then s1\<lparr>eg_returned := resolve (Arr (eg_data s1)) (eg_returned s1)\<rparr>
            else s1)
      else
        (case r of
           Err e \<Rightarrow> s\<lparr>eg_returned := resolve (Res (Err e)) (eg_returned s)\<rparr>
         | Ok v \<Rightarrow>
             (let s1 = s\<lparr>eg_data := put i (Value v) Hole (eg_data s),
                          eg_remaining := eg_remaining s - 1\<rparr>
              in if eg_remaining s1 = 0
                 then s1\<lparr>eg_returned := resolve (Res (Ok (eg_data s1))) (eg_returned s1)\<rparr>
                 else s1)))"

definition eager_settle :: "nat \<Rightarrow> ('v, 'e) eager \<Rightarrow> ('v, 'e) eager" where
  "eager_settle i s =
     (if i < length (eg_promises s) then
        (case eg_promises s ! i of
           Pending (Some r) \<Rightarrow>
             s\<lparr>eg_promises := (eg_promises s)[i := Fulfilled r], eg_jobs := eg_jobs s @ [(i, r)]\<rparr>
         | Pending None \<Rightarrow> s
         | Fulfilled r \<Rightarrow> s)
      else s)"

definition eager_tick :: "('v, 'e) eager \<Rightarrow> ('v, 'e) eager" where
  "eager_tick s =
     (case eg_jobs s of
        [] \<Rightarrow> s
      | (i, r) # js \<Rightarrow> eager_then i r (s\<lparr>eg_jobs := js\<rparr>))"

fun eager_step :: "('v, 'e) eager \<Rightarrow> event \<Rightarrow> ('v, 'e) eager" where
  "eager_step s (Settle i) = eager_settle i s"
| "eager_step s Tick = eager_tick s"

section \<open>allLazy of \<open>src/all.ts\<close>: a set of executing promises and \<open>Promise.race\<close>\<close>

text \<open>
  A thunk of the input, as the call sees it: called, it returns a promise of its own, or
  it returns the promise that the thunk at an earlier index has returned, the same object
  once more. With \<open>const p = ...\<close> the array \<open>[() => p, () => p, () => q]\<close> is
  \<open>[Makes p, Returns 0, Makes q]\<close>. A reference to an index that has not been called is read
  as a new promise that never settles.
\<close>

datatype ('v, 'e) thunk = Makes "('v, 'e) task" | Returns nat

text \<open>
  \<open>lazyPromises.map((lazyPromise) => lazyPromise())\<close>: the promise that each thunk
  returns, listed by index. \<open>allEager\<close> and the pool of the other copy never compare
  promises, they call \<open>then\<close> on the promise of each index; the callbacks of one promise
  run in the order of their registration, so a promise that is returned twice is listed
  twice and the environment settles its two entries one after the other.
\<close>

fun calls :: "('v, 'e) task list \<Rightarrow> ('v, 'e) thunk list \<Rightarrow> ('v, 'e) task list" where
  "calls acc [] = acc"
| "calls acc (Makes t # ths) = calls (acc @ [t]) ths"
| "calls acc (Returns j # ths) = calls (acc @ [if j < length acc then acc ! j else Never]) ths"

definition called :: "('v, 'e) thunk list \<Rightarrow> ('v, 'e) task list" where
  "called ths = calls [] ths"

text \<open>
  A job of the bounded \<open>allLazy\<close>: the then-callback of lines 111 to 121 with the
  \<open>promise\<close> and the \<open>currentIndex\<close> it closes over and the promise's value, the
  resolve function of a race called with a member's value, and the continuation of
  \<open>await Promise.race(executing)\<close> with the winner.
\<close>

datatype ('v, 'e) job = Store nat nat "('v, 'e) result" | Win nat "('v, 'e) result"
  | Resume "('v, 'e) result"

text \<open>
  What \<open>then\<close> has registered on a pending promise: the callback of the thunk called at
  a \<open>currentIndex\<close>, or the resolve function of a race.
\<close>

datatype reaction = Then nat | Raced nat

fun fire :: "nat \<Rightarrow> ('v, 'e) result \<Rightarrow> reaction \<Rightarrow> ('v, 'e) job" where
  "fire p r (Then i) = Store p i r"
| "fire p r (Raced k) = Win k r"

text \<open>
  The promise objects that the thunks have returned so far, each at its address (the order
  of first return), and for each its reactions in the order of registration; for each
  \<open>currentIndex\<close> the address of the promise returned then; the variables of the call
  (\<open>executing\<close>, \<open>queue\<close>, \<open>results\<close>, \<open>index\<close>); the number of races entered,
  whether the latest race is resolved, and the job queue. \<open>executing\<close> is a \<open>Set\<close> of
  promise objects: addresses in insertion order, none twice. A race is entered only from
  the continuation of the one before, so the resolve function of any race but the latest
  does nothing.
\<close>

record ('v, 'e) race =
  rc_mode :: mode
  rc_concurrency :: nat
  rc_promises :: "('v, 'e) promise list"
  rc_reactions :: "reaction list list"
  rc_called :: "nat list"
  rc_executing :: "nat list"
  rc_queue :: "('v, 'e) thunk list"
  rc_results :: "('v, 'e) slot list"
  rc_index :: nat
  rc_race :: nat
  rc_raced :: bool
  rc_jobs :: "('v, 'e) job list"
  rc_returned :: "('v, 'e) answer option"

text \<open>\<open>Set.prototype.add\<close>: a member that is in the set already is not added again.\<close>

definition set_add :: "nat \<Rightarrow> nat list \<Rightarrow> nat list" where
  "set_add p xs = (if p \<in> set xs then xs else xs @ [p])"

text \<open>
  \<open>promise.then(reaction)\<close>: on a fulfilled promise the reaction becomes a job at once, on
  a pending one it is kept for the time the promise is fulfilled.
\<close>

definition promise_then :: "nat \<Rightarrow> reaction \<Rightarrow> ('v, 'e) race \<Rightarrow> ('v, 'e) race" where
  "promise_then p re s =
     (if p < length (rc_promises s) then
        (case rc_promises s ! p of
           Fulfilled r \<Rightarrow> s\<lparr>rc_jobs := rc_jobs s @ [fire p r re]\<rparr>
         | Pending x \<Rightarrow> s\<lparr>rc_reactions := (rc_reactions s)[p := rc_reactions s ! p @ [re]]\<rparr>)
      else s)"

text \<open>A new promise object, at the next address.\<close>

definition new_promise :: "('v, 'e) task \<Rightarrow> ('v, 'e) race \<Rightarrow> nat \<times> ('v, 'e) race" where
  "new_promise t s =
     (length (rc_promises s),
      s\<lparr>rc_promises := rc_promises s @ [start t], rc_reactions := rc_reactions s @ [[]]\<rparr>)"

text \<open>\<open>nextLazyPromise()\<close>, line 108: the address of the promise returned.\<close>

definition call_thunk :: "('v, 'e) thunk \<Rightarrow> ('v, 'e) race \<Rightarrow> nat \<times> ('v, 'e) race" where
  "call_thunk th s =
     (case th of
        Makes t \<Rightarrow> new_promise t s
      | Returns j \<Rightarrow> (if j < length (rc_called s) then (rc_called s ! j, s) else new_promise Never s))"

text \<open>
  Lines 108 to 121: call the thunk, take the next index, add the promise to the set,
  register the callback.
\<close>

definition spawn :: "('v, 'e) thunk \<Rightarrow> ('v, 'e) race \<Rightarrow> ('v, 'e) race" where
  "spawn th s =
     (case call_thunk th s of
        (p, s1) \<Rightarrow>
          promise_then p (Then (rc_index s1))
            (s1\<lparr>rc_called := rc_called s1 @ [p], rc_index := rc_index s1 + 1,
                 rc_executing := set_add p (rc_executing s1)\<rparr>))"

text \<open>The inner while loop, lines 102 to 122.\<close>

function fill :: "('v, 'e) race \<Rightarrow> ('v, 'e) race" where
  "fill s =
     (if length (rc_executing s) < rc_concurrency s then
        (case rc_queue s of
           [] \<Rightarrow> s
         | th # q \<Rightarrow> fill (spawn th (s\<lparr>rc_queue := q\<rparr>)))
      else s)"
  by pat_completeness auto
termination
  by (relation "measure (\<lambda>s. length (rc_queue s))")
     (auto simp: spawn_def call_thunk_def new_promise_def promise_then_def
        split: thunk.splits promise.splits)

declare fill.simps [simp del]

text \<open>
  \<open>Promise.race(executing)\<close> calls \<open>then\<close> on each member in insertion order, with the
  resolve function of the race.
\<close>

definition watch :: "nat \<Rightarrow> ('v, 'e) race \<Rightarrow> nat \<Rightarrow> ('v, 'e) race" where
  "watch k s p = promise_then p (Raced k) s"

definition enter_race :: "('v, 'e) race \<Rightarrow> ('v, 'e) race" where
  "enter_race s =
     foldl (watch (rc_race s + 1)) (s\<lparr>rc_race := rc_race s + 1, rc_raced := False\<rparr>)
       (rc_executing s)"

text \<open>One pass of the do loop up to its \<open>await\<close>.\<close>

definition loop_body :: "('v, 'e) race \<Rightarrow> ('v, 'e) race" where
  "loop_body s = enter_race (fill s)"

definition race_init :: "('v, 'e) thunk list \<Rightarrow> mode \<Rightarrow> nat \<Rightarrow> ('v, 'e) race" where
  "race_init ths m k =
     loop_body
       \<lparr>rc_mode = m, rc_concurrency = k, rc_promises = [], rc_reactions = [], rc_called = [],
        rc_executing = [], rc_queue = ths, rc_results = [], rc_index = 0, rc_race = 0,
        rc_raced = True, rc_jobs = [], rc_returned = None\<rparr>"

text \<open>The then-callback of lines 111 to 121, of \<open>promise\<close> \<open>p\<close> and \<open>currentIndex\<close> \<open>i\<close>.\<close>

definition race_store :: "nat \<Rightarrow> nat \<Rightarrow> ('v, 'e) result \<Rightarrow> ('v, 'e) race \<Rightarrow> ('v, 'e) race" where
  "race_store p i r s =
     (let s1 = s\<lparr>rc_executing := removeAll p (rc_executing s)\<rparr>
      in if rc_mode s1 = Settled then s1\<lparr>rc_results := put i (Outcome r) Hole (rc_results s1)\<rparr>
         else (case r of
                 Ok v \<Rightarrow> s1\<lparr>rc_results := put i (Value v) Hole (rc_results s1)\<rparr>
               | Err e \<Rightarrow> s1))"

definition race_win :: "nat \<Rightarrow> ('v, 'e) result \<Rightarrow> ('v, 'e) race \<Rightarrow> ('v, 'e) race" where
  "race_win k r s =
     (if k = rc_race s \<and> \<not> rc_raced s
      then s\<lparr>rc_raced := True, rc_jobs := rc_jobs s @ [Resume r]\<rparr>
      else s)"

text \<open>After the \<open>await\<close>: lines 125 to 134.\<close>

definition race_resume :: "('v, 'e) result \<Rightarrow> ('v, 'e) race \<Rightarrow> ('v, 'e) race" where
  "race_resume winner s =
     (case (winner, rc_mode s) of
        (Err e, Default) \<Rightarrow> s\<lparr>rc_returned := resolve (Res (Err e)) (rc_returned s)\<rparr>
      | _ \<Rightarrow>
         (if length (rc_executing s) > 0 \<or> length (rc_queue s) > 0 then loop_body s
          else if rc_mode s = Settled
          then s\<lparr>rc_returned := resolve (Arr (rc_results s)) (rc_returned s)\<rparr>
          else s\<lparr>rc_returned := resolve (Res (Ok (rc_results s))) (rc_returned s)\<rparr>))"

fun race_job :: "('v, 'e) job \<Rightarrow> ('v, 'e) race \<Rightarrow> ('v, 'e) race" where
  "race_job (Store p i r) s = race_store p i r s"
| "race_job (Win k r) s = race_win k r s"
| "race_job (Resume w) s = race_resume w s"

text \<open>A promise that is fulfilled queues its reactions in the order they were registered.\<close>

definition race_settle :: "nat \<Rightarrow> ('v, 'e) race \<Rightarrow> ('v, 'e) race" where
  "race_settle p s =
     (if p < length (rc_promises s) then
        (case rc_promises s ! p of
           Pending (Some r) \<Rightarrow>
             s\<lparr>rc_promises := (rc_promises s)[p := Fulfilled r],
               rc_jobs := rc_jobs s @ map (fire p r) (rc_reactions s ! p)\<rparr>
         | Pending None \<Rightarrow> s
         | Fulfilled r \<Rightarrow> s)
      else s)"

definition race_tick :: "('v, 'e) race \<Rightarrow> ('v, 'e) race" where
  "race_tick s =
     (case rc_jobs s of
        [] \<Rightarrow> s
      | j # js \<Rightarrow> race_job j (s\<lparr>rc_jobs := js\<rparr>))"

fun race_step :: "('v, 'e) race \<Rightarrow> event \<Rightarrow> ('v, 'e) race" where
  "race_step s (Settle p) = race_settle p s"
| "race_step s Tick = race_tick s"

section \<open>allLazy of the other copy: a pool refilled by \<open>runNext\<close>\<close>

text \<open>
  The variables of the call and, as in \<open>allEager\<close>, the promises by index and the queue
  of callbacks whose promise is fulfilled. \<open>lazyPromises\<close> is kept as the promise that
  each thunk returns when it is called (\<open>called\<close>).
\<close>

record ('v, 'e) pool =
  pl_mode :: mode
  pl_lazyPromises :: "('v, 'e) task list"
  pl_promises :: "('v, 'e) promise list"
  pl_results :: "('v, 'e) slot list"
  pl_nextIndex :: nat
  pl_remaining :: int
  pl_done :: bool
  pl_jobs :: "(nat \<times> ('v, 'e) result) list"
  pl_returned :: "('v, 'e) answer option"

definition resolveOuter :: "('v, 'e) answer \<Rightarrow> ('v, 'e) pool \<Rightarrow> ('v, 'e) pool" where
  "resolveOuter a s = s\<lparr>pl_done := True, pl_returned := resolve a (pl_returned s)\<rparr>"

text \<open>
  \<open>runNext\<close> up to the call of \<open>then\<close>: the promise of thunk \<open>i\<close> is the \<open>i\<close>-th one
  created, since \<open>nextIndex\<close> counts them.
\<close>

definition runNext :: "('v, 'e) pool \<Rightarrow> ('v, 'e) pool" where
  "runNext s =
     (if pl_done s \<or> pl_nextIndex s \<ge> length (pl_lazyPromises s) then s
      else
        (let i = pl_nextIndex s; p = start (pl_lazyPromises s ! i)
         in s\<lparr>pl_nextIndex := i + 1, pl_promises := pl_promises s @ [p],
               pl_jobs := pl_jobs s @ (case p of Fulfilled r \<Rightarrow> [(i, r)] | Pending x \<Rightarrow> [])\<rparr>))"

text \<open>The end of the callback, lines 126 to 132.\<close>

definition pool_after :: "('v, 'e) pool \<Rightarrow> ('v, 'e) pool" where
  "pool_after s =
     (let s1 = s\<lparr>pl_remaining := pl_remaining s - 1\<rparr>
      in if pl_remaining s1 = 0
         then resolveOuter
                (if pl_mode s1 = Settled then Arr (pl_results s1) else Res (Ok (pl_results s1))) s1
         else runNext s1)"

text \<open>The callback of thunk \<open>i\<close>, lines 116 to 133.\<close>

definition pool_then :: "nat \<Rightarrow> ('v, 'e) result \<Rightarrow> ('v, 'e) pool \<Rightarrow> ('v, 'e) pool" where
  "pool_then i r s =
     (if pl_mode s = Settled
      then pool_after (s\<lparr>pl_results := put i (Outcome r) Hole (pl_results s)\<rparr>)
      else (case r of
              Err e \<Rightarrow> resolveOuter (Res (Err e)) s
            | Ok v \<Rightarrow> pool_after (s\<lparr>pl_results := put i (Value v) Hole (pl_results s)\<rparr>)))"

text \<open>Lines 97 to 137 for a number \<open>concurrency\<close>.\<close>

definition pool_init :: "('v, 'e) task list \<Rightarrow> mode \<Rightarrow> nat \<Rightarrow> ('v, 'e) pool" where
  "pool_init ts m k =
     (if length ts = 0 then
        \<lparr>pl_mode = m, pl_lazyPromises = ts, pl_promises = [], pl_results = [],
         pl_nextIndex = 0, pl_remaining = 0, pl_done = False, pl_jobs = [],
         pl_returned = Some (if m = Settled then Arr [] else Res (Ok []))\<rparr>
      else
        (runNext ^^ (min k (length ts)))
          \<lparr>pl_mode = m, pl_lazyPromises = ts, pl_promises = [],
           pl_results = replicate (length ts) Hole, pl_nextIndex = 0,
           pl_remaining = int (length ts), pl_done = False, pl_jobs = [],
           pl_returned = None\<rparr>)"

definition pool_settle :: "nat \<Rightarrow> ('v, 'e) pool \<Rightarrow> ('v, 'e) pool" where
  "pool_settle i s =
     (if i < length (pl_promises s) then
        (case pl_promises s ! i of
           Pending (Some r) \<Rightarrow>
             s\<lparr>pl_promises := (pl_promises s)[i := Fulfilled r], pl_jobs := pl_jobs s @ [(i, r)]\<rparr>
         | Pending None \<Rightarrow> s
         | Fulfilled r \<Rightarrow> s)
      else s)"

definition pool_tick :: "('v, 'e) pool \<Rightarrow> ('v, 'e) pool" where
  "pool_tick s =
     (case pl_jobs s of
        [] \<Rightarrow> s
      | (i, r) # js \<Rightarrow> pool_then i r (s\<lparr>pl_jobs := js\<rparr>))"

fun pool_step :: "('v, 'e) pool \<Rightarrow> event \<Rightarrow> ('v, 'e) pool" where
  "pool_step s (Settle i) = pool_settle i s"
| "pool_step s Tick = pool_tick s"

section \<open>The entry point \<open>all\<close>\<close>

text \<open>
  The overloads of \<open>all\<close> take a readonly array of promises or a readonly array of
  thunks, and an optional record of options whose fields are optional.
\<close>

datatype ('v, 'e) input = Promises "('v, 'e) task list" | Thunks "('v, 'e) thunk list"

record options =
  opt_mode :: "mode option"
  opt_concurrency :: "concurrency option"

text \<open>The tasks of the input by index: the promises, or what the thunks return.\<close>

fun tasks_of :: "('v, 'e) input \<Rightarrow> ('v, 'e) task list" where
  "tasks_of (Promises ts) = ts"
| "tasks_of (Thunks ths) = called ths"

fun thunks_of :: "('v, 'e) input \<Rightarrow> ('v, 'e) thunk list" where
  "thunks_of (Promises ts) = []"
| "thunks_of (Thunks ths) = ths"

text \<open>\<open>typeof promises[0] === "function"\<close>; \<open>promises[0]\<close> of an empty array is undefined.\<close>

fun first_is_function :: "('v, 'e) input \<Rightarrow> bool" where
  "first_is_function (Thunks (th # ths)) = True"
| "first_is_function (Thunks []) = False"
| "first_is_function (Promises ts) = False"

text \<open>\<open>options?.mode ?? "default"\<close> and \<open>options?.concurrency ?? "unbounded"\<close>.\<close>

definition mode_of :: "options option \<Rightarrow> mode" where
  "mode_of opts =
     (case opts of None \<Rightarrow> Default
      | Some r \<Rightarrow> (case opt_mode r of None \<Rightarrow> Default | Some m \<Rightarrow> m))"

definition concurrency_of :: "options option \<Rightarrow> concurrency" where
  "concurrency_of opts =
     (case opts of None \<Rightarrow> Unbounded
      | Some r \<Rightarrow> (case opt_concurrency r of None \<Rightarrow> Unbounded | Some c \<Rightarrow> c))"

text \<open>A call of \<open>all\<close> of \<open>src/all.ts\<close> runs \<open>allEager\<close> or the bounded loop of \<open>allLazy\<close>.\<close>

datatype ('v, 'e) call = Eagerly "('v, 'e) eager" | Racing "('v, 'e) race"

definition allLazy :: "('v, 'e) thunk list \<Rightarrow> mode \<Rightarrow> concurrency \<Rightarrow> ('v, 'e) call" where
  "allLazy ths m c =
     (case c of
        Unbounded \<Rightarrow> Eagerly (allEager (called ths) m)
      | Limit k \<Rightarrow> Racing (race_init ths m k))"

definition all_ts :: "('v, 'e) input \<Rightarrow> options option \<Rightarrow> ('v, 'e) call" where
  "all_ts promises opts =
     (if first_is_function promises
      then allLazy (thunks_of promises) (mode_of opts) (concurrency_of opts)
      else Eagerly (allEager (tasks_of promises) (mode_of opts)))"

fun call_step :: "('v, 'e) call \<Rightarrow> event \<Rightarrow> ('v, 'e) call" where
  "call_step (Eagerly s) ev = Eagerly (eager_step s ev)"
| "call_step (Racing s) ev = Racing (race_step s ev)"

fun returned :: "('v, 'e) call \<Rightarrow> ('v, 'e) answer option" where
  "returned (Eagerly s) = eg_returned s"
| "returned (Racing s) = rc_returned s"

text \<open>The promise of each index that has been started, in its present state.\<close>

fun promises_of :: "('v, 'e) call \<Rightarrow> ('v, 'e) promise list" where
  "promises_of (Eagerly s) = eg_promises s"
| "promises_of (Racing s) = map (\<lambda>p. rc_promises s ! p) (rc_called s)"

fun idle :: "('v, 'e) call \<Rightarrow> bool" where
  "idle (Eagerly s) = (eg_jobs s = [])"
| "idle (Racing s) = (rc_jobs s = [])"

text \<open>The call after the events of a run.\<close>

definition run :: "('v, 'e) input \<Rightarrow> options option \<Rightarrow> event list \<Rightarrow> ('v, 'e) call" where
  "run promises opts evs = foldl call_step (all_ts promises opts) evs"

text \<open>The same for the other copy of the file.\<close>

datatype ('v, 'e) call_alt = Eagerly_alt "('v, 'e) eager" | Pooling "('v, 'e) pool"

definition allLazy_alt :: "('v, 'e) thunk list \<Rightarrow> mode \<Rightarrow> concurrency \<Rightarrow> ('v, 'e) call_alt" where
  "allLazy_alt ths m c =
     (case c of
        Unbounded \<Rightarrow> Eagerly_alt (allEager_alt (called ths) m)
      | Limit k \<Rightarrow> Pooling (pool_init (called ths) m k))"

definition all_alt :: "('v, 'e) input \<Rightarrow> options option \<Rightarrow> ('v, 'e) call_alt" where
  "all_alt promises opts =
     (if first_is_function promises
      then allLazy_alt (thunks_of promises) (mode_of opts) (concurrency_of opts)
      else Eagerly_alt (allEager_alt (tasks_of promises) (mode_of opts)))"

fun call_step_alt :: "('v, 'e) call_alt \<Rightarrow> event \<Rightarrow> ('v, 'e) call_alt" where
  "call_step_alt (Eagerly_alt s) ev = Eagerly_alt (eager_step s ev)"
| "call_step_alt (Pooling s) ev = Pooling (pool_step s ev)"

fun returned_alt :: "('v, 'e) call_alt \<Rightarrow> ('v, 'e) answer option" where
  "returned_alt (Eagerly_alt s) = eg_returned s"
| "returned_alt (Pooling s) = pl_returned s"

fun promises_of_alt :: "('v, 'e) call_alt \<Rightarrow> ('v, 'e) promise list" where
  "promises_of_alt (Eagerly_alt s) = eg_promises s"
| "promises_of_alt (Pooling s) = pl_promises s"

fun idle_alt :: "('v, 'e) call_alt \<Rightarrow> bool" where
  "idle_alt (Eagerly_alt s) = (eg_jobs s = [])"
| "idle_alt (Pooling s) = (pl_jobs s = [])"

definition run_alt :: "('v, 'e) input \<Rightarrow> options option \<Rightarrow> event list \<Rightarrow> ('v, 'e) call_alt" where
  "run_alt promises opts evs = foldl call_step_alt (all_alt promises opts) evs"

section \<open>The generator-driven composition engine\<close>

text \<open>
  Modelled from the spec: \<open>Result.gen\<close> is defined in \<open>result.ts\<close>, which is not among
  the source files (only its tests are). Section 4.2 of the specification describes the
  driver: it pulls one yielded Result at a time from the step sequence; on Ok it resumes the
  sequence with the unwrapped value; on Error it does not resume, runs the scoped cleanup
  registered by the sequence and returns that Error unchanged; a value thrown by the
  sequence becomes a Panic. Following its design notes the step sequence is an instruction
  list: each step, given the values unwrapped so far, yields a Result or throws, and may
  register a cleanup; the terminal step returns the Result of the whole composition.
  A cleanup is a marker here: a throw inside a cleanup is left out.
\<close>

datatype ('v, 'e, 'c) yielded = Yields "('v, 'e) result" | Throws 'c

record ('v, 'e, 'c) step =
  body :: "'v list \<Rightarrow> ('v, 'e, 'c) yielded"
  has_cleanup :: bool

datatype ('v, 'e, 'c) completion = Done "('v, 'e) result" | Panic 'c

text \<open>What a composition did, in order: the steps it ran and the cleanups it ran.\<close>

datatype effect = Ran nat | Cleaned nat

text \<open>
  The driver from step \<open>i\<close> on, with the values unwrapped so far and the cleanups
  registered so far, innermost first. The terminal step has the index after the last
  yielding step.
\<close>

fun drive_from :: "nat \<Rightarrow> 'v list \<Rightarrow> nat list \<Rightarrow> ('v, 'e, 'c) step list \<Rightarrow>
    ('v list \<Rightarrow> ('v, 'e, 'c) yielded) \<Rightarrow> effect list \<times> ('v, 'e, 'c) completion" where
  "drive_from i vs cs [] ret =
     (case ret vs of
        Yields r \<Rightarrow> (Ran i # map Cleaned cs, Done r)
      | Throws c \<Rightarrow> (Ran i # map Cleaned cs, Panic c))"
| "drive_from i vs cs (st # rest) ret =
     (let cs1 = (if has_cleanup st then i # cs else cs)
      in case body st vs of
           Yields (Ok v) \<Rightarrow>
             (let (tr, out) = drive_from (Suc i) (vs @ [v]) cs1 rest ret in (Ran i # tr, out))
         | Yields (Err e) \<Rightarrow> (Ran i # map Cleaned cs1, Done (Err e))
         | Throws c \<Rightarrow> (Ran i # map Cleaned cs1, Panic c))"

definition gen :: "('v, 'e, 'c) step list \<Rightarrow> ('v list \<Rightarrow> ('v, 'e, 'c) yielded) \<Rightarrow>
    effect list \<times> ('v, 'e, 'c) completion" where
  "gen steps ret = drive_from 0 [] [] steps ret"

text \<open>
  The steps, each run with the values before it, yield \<open>Ok\<close> of the successive
  elements of a list of values.
\<close>

fun yield_ok :: "('v, 'e, 'c) step list \<Rightarrow> 'v list \<Rightarrow> 'v list \<Rightarrow> bool" where
  "yield_ok [] pre [] = True"
| "yield_ok (st # rest) pre (v # vs) = (body st pre = Yields (Ok v) \<and> yield_ok rest (pre @ [v]) vs)"
| "yield_ok [] pre (v # vs) = False"
| "yield_ok (st # rest) pre [] = False"

section \<open>The fallible-call wrapper with retry\<close>

text \<open>
  Modelled from the spec: \<open>Result.try\<close> and \<open>Result.tryPromise\<close> are defined in
  \<open>result.ts\<close>, which is not among the source files (only its tests are). Section 4.1 of
  the specification: the wrapper invokes the callable; on success it returns Ok at once; on
  a throw it maps the caught value to a domain error (a mapper that throws gives a Panic,
  which is not retried); if a RetryPolicy was supplied, \<open>shouldRetry (error, attemptNumber)\<close>
  (default: always true) allows it and attempts remain, it tries again, up to \<open>attempts\<close>
  tries in total, and otherwise returns the Error of the last attempt. The asynchronous
  form waits between tries: \<open>delayMs\<close> for a constant backoff, \<open>delayMs * 2 ^ (n - 1)\<close>
  before the \<open>n\<close>-th retry for an exponential one.
  The callable may behave differently each time it is invoked, so it is a function of the
  number of the attempt, counted from 1: it returns a value (\<open>Inl\<close>) or throws (\<open>Inr\<close>).
\<close>

datatype backoff = Constant | Exponential

record 'e retry_policy =
  attempts :: nat
  delayMs :: nat
  backoff :: backoff
  shouldRetry :: "('e \<Rightarrow> nat \<Rightarrow> bool) option"

datatype ('v, 'e, 'c) wrapped = Returned "('v, 'e) result" | Panicked 'c

text \<open>What a call of the wrapper did: how often it invoked the callable, the delays it
  waited for, in order, and what it returned.\<close>

record ('v, 'e, 'c) attempt_log =
  invocations :: nat
  delays :: "nat list"
  final :: "('v, 'e, 'c) wrapped"

definition allows :: "'e retry_policy \<Rightarrow> 'e \<Rightarrow> nat \<Rightarrow> bool" where
  "allows p e n = (case shouldRetry p of None \<Rightarrow> True | Some f \<Rightarrow> f e n)"

definition delay_before_retry :: "'e retry_policy \<Rightarrow> nat \<Rightarrow> nat" where
  "delay_before_retry p n =
     (case backoff p of Constant \<Rightarrow> delayMs p | Exponential \<Rightarrow> delayMs p * 2 ^ (n - 1))"

text \<open>
  The loop of the wrapper at attempt \<open>n\<close>, after the delays \<open>ds\<close>. The mapper returns
  \<open>None\<close> when it throws itself; the thrown value is then the cause of the Panic.
\<close>

function attempt_from :: "'e retry_policy \<Rightarrow> (nat \<Rightarrow> 'v + 'c) \<Rightarrow> ('c \<Rightarrow> 'e option) \<Rightarrow>
    nat \<Rightarrow> nat list \<Rightarrow> ('v, 'e, 'c) attempt_log" where
  "attempt_from p operation catch n ds =
     (case operation n of
        Inl v \<Rightarrow> \<lparr>invocations = n, delays = ds, final = Returned (Ok v)\<rparr>
      | Inr c \<Rightarrow>
          (case catch c of
             None \<Rightarrow> \<lparr>invocations = n, delays = ds, final = Panicked c\<rparr>
           | Some e \<Rightarrow>
               if n < attempts p \<and> allows p e n
               then attempt_from p operation catch (Suc n) (ds @ [delay_before_retry p n])
               else \<lparr>invocations = n, delays = ds, final = Returned (Err e)\<rparr>))"
  by pat_completeness auto
termination
  by (relation "measure (\<lambda>(p, operation, catch, n, ds). attempts p - n)") auto

declare attempt_from.simps [simp del]

text \<open>Without a RetryPolicy the callable is tried once.\<close>

definition once :: "'e retry_policy" where
  "once = \<lparr>attempts = 1, delayMs = 0, backoff = Constant, shouldRetry = None\<rparr>"

text \<open>The asynchronous form.\<close>

definition tryPromise :: "(nat \<Rightarrow> 'v + 'c) \<Rightarrow> ('c \<Rightarrow> 'e option) \<Rightarrow> 'e retry_policy option \<Rightarrow>
    ('v, 'e, 'c) attempt_log" where
  "tryPromise operation catch policy =
     attempt_from (case policy of None \<Rightarrow> once | Some p \<Rightarrow> p) operation catch 1 []"

text \<open>The synchronous form retries without waiting.\<close>

definition try_sync :: "(nat \<Rightarrow> 'v + 'c) \<Rightarrow> ('c \<Rightarrow> 'e option) \<Rightarrow> 'e retry_policy option \<Rightarrow>
    ('v, 'e, 'c) attempt_log" where
  "try_sync operation catch policy = (tryPromise operation catch policy)\<lparr>delays := []\<rparr>"

section \<open>Invariants of a call of allEager\<close>

fun expect :: "('v, 'e) promise \<Rightarrow> ('v, 'e) result option" where
  "expect (Pending x) = x"
| "expect (Fulfilled r) = Some r"

definition slot_for :: "mode \<Rightarrow> ('v, 'e) result \<Rightarrow> ('v, 'e) slot" where
  "slot_for m r = (if m = Settled then Outcome r else (case r of Ok v \<Rightarrow> Value v | Err e \<Rightarrow> Hole))"

definition wrap :: "mode \<Rightarrow> ('v, 'e) slot list \<Rightarrow> ('v, 'e) answer" where
  "wrap m d = (if m = Settled then Arr d else Res (Ok d))"

definition good :: "mode \<Rightarrow> ('v, 'e) result option \<Rightarrow> bool" where
  "good m x = (case x of None \<Rightarrow> True | Some r \<Rightarrow> m = Settled \<or> isOk r)"

definition eager_inv :: "('v, 'e) eager \<Rightarrow> bool" where
  "eager_inv s \<longleftrightarrow>
     length (eg_data s) = length (eg_promises s) \<and>
     distinct (map fst (eg_jobs s)) \<and>
     (\<forall>i r. (i, r) \<in> set (eg_jobs s) \<longrightarrow>
        i < length (eg_promises s) \<and> eg_promises s ! i = Fulfilled r) \<and>
     (\<forall>i x. i < length (eg_promises s) \<and> eg_promises s ! i = Pending x \<longrightarrow>
        good (eg_mode s) x \<and> eg_data s ! i = Hole) \<and>
     (\<forall>i r. i < length (eg_promises s) \<and> eg_promises s ! i = Fulfilled r \<longrightarrow>
        good (eg_mode s) (Some r) \<and>
        eg_data s ! i = (if i \<in> fst ` set (eg_jobs s) then Hole else slot_for (eg_mode s) r)) \<and>
     eg_remaining s = int (in_flight (eg_promises s)) + int (length (eg_jobs s)) \<and>
     eg_returned s = (if eg_remaining s = 0 then Some (wrap (eg_mode s) (eg_data s)) else None)"


section \<open>What a run has reached\<close>

text \<open>Every operation started so far has completed and every queued job has run.\<close>

definition all_delivered :: "('v, 'e) call \<Rightarrow> bool" where
  "all_delivered c \<longleftrightarrow> in_flight (promises_of c) = 0 \<and> idle c"

definition all_delivered_alt :: "('v, 'e) call_alt \<Rightarrow> bool" where
  "all_delivered_alt c \<longleftrightarrow> in_flight (promises_of_alt c) = 0 \<and> idle_alt c"

section \<open>Invariants of the bounded loop of \<open>src/all.ts\<close>\<close>

text \<open>A thunk that returns a promise of its own.\<close>

fun own :: "('v, 'e) thunk \<Rightarrow> bool" where
  "own (Makes t) = True"
| "own (Returns j) = False"

text \<open>
  When every thunk returns a promise of its own: the promise of index \<open>i\<close> is at address
  \<open>i\<close> and the promise table matches the counters; \<open>executing\<close> holds each promise
  once and holds every pending one; the callback of a promise is queued only once the
  promise is fulfilled, and is still queued while a fulfilled promise is in \<open>executing\<close>;
  a pending promise has its own callback registered and no other.
\<close>

definition race_shape :: "('v, 'e) race \<Rightarrow> bool" where
  "race_shape s \<longleftrightarrow>
     rc_index s = length (rc_promises s) \<and>
     rc_called s = [0..<length (rc_promises s)] \<and>
     (\<forall>th. th \<in> set (rc_queue s) \<longrightarrow> own th) \<and>
     length (rc_reactions s) = length (rc_promises s) \<and>
     distinct (rc_executing s) \<and>
     length (rc_executing s) \<le> rc_concurrency s \<and>
     (\<forall>i. i \<in> set (rc_executing s) \<longrightarrow> i < length (rc_promises s)) \<and>
     (\<forall>i. i < length (rc_promises s) \<and> is_pending (rc_promises s ! i) \<longrightarrow>
        i \<in> set (rc_executing s)) \<and>
     (\<forall>p i r. Store p i r \<in> set (rc_jobs s) \<longrightarrow>
        p = i \<and> i < length (rc_promises s) \<and> rc_promises s ! i = Fulfilled r) \<and>
     (\<forall>i r. i \<in> set (rc_executing s) \<and> rc_promises s ! i = Fulfilled r \<longrightarrow>
        Store i i r \<in> set (rc_jobs s)) \<and>
     (\<forall>p i. p < length (rc_promises s) \<and> Then i \<in> set (rc_reactions s ! p) \<longrightarrow> i = p) \<and>
     (\<forall>p. p < length (rc_promises s) \<and> is_pending (rc_promises s ! p) \<longrightarrow>
        Then p \<in> set (rc_reactions s ! p))"

text \<open>
  While the call has not returned, the loop is waiting for a race or its continuation is
  queued; a race that is open and has no resolve job queued has a non-empty
  \<open>executing\<close> set that is full or has emptied the queue; and every member of
  \<open>executing\<close> is watched by the open race.
\<close>

definition race_live :: "('v, 'e) race \<Rightarrow> bool" where
  "race_live s \<longleftrightarrow>
     (rc_returned s = None \<and> rc_raced s \<longrightarrow> (\<exists>w. Resume w \<in> set (rc_jobs s))) \<and>
     (\<not> rc_raced s \<longrightarrow>
        ((\<exists>r. Win (rc_race s) r \<in> set (rc_jobs s)) \<or>
         (rc_executing s \<noteq> [] \<and>
          (rc_concurrency s \<le> length (rc_executing s) \<or> rc_queue s = []))) \<and>
        (\<forall>i x. i \<in> set (rc_executing s) \<and> rc_promises s ! i = Pending x \<longrightarrow>
           Raced (rc_race s) \<in> set (rc_reactions s ! i)) \<and>
        (\<forall>i r. i \<in> set (rc_executing s) \<and> rc_promises s ! i = Fulfilled r \<longrightarrow>
           Win (rc_race s) r \<in> set (rc_jobs s)))"

text \<open>The promises created and the thunks still queued are the tasks of the call.\<close>

definition race_tasks :: "('v, 'e) task list \<Rightarrow> ('v, 'e) race \<Rightarrow> bool" where
  "race_tasks ts s \<longleftrightarrow>
     (\<exists>q. rc_queue s = map Makes q \<and>
          map expect (rc_promises s) @ map outcome q = map outcome ts)"


section \<open>Invariant of the pool of the other copy\<close>

text \<open>
  For a limit \<open>k\<close>: \<open>nextIndex\<close> counts the promises created; the operations in
  flight and the callbacks queued are at most \<open>k\<close>, and exactly \<open>k\<close> while the call is
  not done and thunks are left; a call that is done has returned.
\<close>

definition pool_inv :: "nat \<Rightarrow> ('v, 'e) pool \<Rightarrow> bool" where
  "pool_inv k s \<longleftrightarrow>
     pl_nextIndex s = length (pl_promises s) \<and>
     length (pl_promises s) \<le> length (pl_lazyPromises s) \<and>
     in_flight (pl_promises s) + length (pl_jobs s) \<le> k \<and>
     (\<not> pl_done s \<and> pl_nextIndex s < length (pl_lazyPromises s) \<longrightarrow>
        in_flight (pl_promises s) + length (pl_jobs s) = k) \<and>
     (pl_done s \<longrightarrow> pl_returned s \<noteq> None)"

section \<open>The work left in the bounded loop of \<open>src/all.ts\<close>\<close>








section \<open>Proofs: the promises that the thunks return\<close>

lemma length_calls: "length (calls acc ths) = length acc + length ths"
  by (induction acc ths rule: calls.induct) simp_all

lemma length_called: "length (called ths) = length ths"
  by (simp add: called_def length_calls)

lemma called_Nil: "called ths = [] \<longleftrightarrow> ths = []"
  using length_called[of ths] by (metis length_0_conv)



lemma tasks_of_Nil: "tasks_of promises = [] \<Longrightarrow> thunks_of promises = []"
  by (cases promises) (simp_all add: called_Nil)

section \<open>Proofs: allEager\<close>

lemma in_flight_update:
  "i < length ps \<Longrightarrow> is_pending (ps ! i) \<Longrightarrow> in_flight (ps[i := Fulfilled r]) + 1 = in_flight ps"
proof (induction ps arbitrary: i)
  case Nil
  then show ?case by simp
next
  case (Cons p ps)
  then show ?case by (cases i) (auto simp: in_flight_def)
qed

lemma ready_jobs_fst: "(i, r) \<in> set (ready_jobs k ps) \<longleftrightarrow> k \<le> i \<and> i - k < length ps \<and> ps ! (i - k) = Fulfilled r"
proof (induction k ps rule: ready_jobs.induct)
  case (1 i)
  then show ?case by simp
next
  case (2 k r' ps)
  then show ?case by (auto simp: nth_Cons' Suc_diff_Suc less_Suc_eq_le split: if_splits) 
next
  case (3 k x ps)
  then show ?case by (auto simp: nth_Cons' Suc_diff_Suc less_Suc_eq_le split: if_splits) 
qed

lemma ready_jobs_lower: "x \<in> set (ready_jobs k ps) \<Longrightarrow> k \<le> fst x"
  by (cases x) (simp add: ready_jobs_fst)

lemma ready_jobs_distinct: "distinct (map fst (ready_jobs k ps))"
  by (induction k ps rule: ready_jobs.induct) (auto dest: ready_jobs_lower)

lemma ready_jobs_length: "length (ready_jobs k ps) + in_flight ps = length ps"
  by (induction k ps rule: ready_jobs.induct) (auto simp: in_flight_def)

lemma ready_jobs_image: "i \<in> fst ` set (ready_jobs 0 ps) \<longleftrightarrow> i < length ps \<and> \<not> is_pending (ps ! i)"
proof -
  have "i \<in> fst ` set (ready_jobs 0 ps) \<longleftrightarrow> (\<exists>r. (i, r) \<in> set (ready_jobs 0 ps))"
    by force
  also have "\<dots> \<longleftrightarrow> i < length ps \<and> (\<exists>r. ps ! i = Fulfilled r)"
    by (simp add: ready_jobs_fst)
  also have "\<dots> \<longleftrightarrow> i < length ps \<and> \<not> is_pending (ps ! i)"
    by (cases "ps ! i") auto
  finally show ?thesis .
qed

lemma expect_start: "expect (start t) = outcome t"
  by (cases t) auto

lemma ready_jobs_zero:
  "(i, r) \<in> set (ready_jobs 0 ps) \<Longrightarrow> i < length ps \<and> ps ! i = Fulfilled r"
  by (simp add: ready_jobs_fst)

lemma eager_inv_register:
  assumes "\<forall>t \<in> set ts. good m (outcome t)" and "ts \<noteq> []"
  shows "eager_inv (eager_register m ts)"
proof -
  let ?ps = "map start ts"
  have c: "int (in_flight ?ps) + int (length (ready_jobs 0 ?ps)) = int (length ts)"
    using ready_jobs_length[of 0 ?ps] by simp
  have g: "good m (expect (start (ts ! i)))" if "i < length ts" for i
    using assms(1) that by (simp add: expect_start)
  have p: "good m x" if "i < length ts" "start (ts ! i) = Pending x" for i x
    using g[OF that(1)] that(2) by simp
  have f: "good m (Some r)" if "i < length ts" "start (ts ! i) = Fulfilled r" for i r
    using g[OF that(1)] that(2) by simp
  show ?thesis
    unfolding eager_inv_def eager_register_def
    using assms(2) by (auto simp: ready_jobs_distinct c ready_jobs_image p f dest: ready_jobs_zero)
qed

lemma eager_inv_return: "eager_inv (eager_return m (wrap m []))"
  by (simp add: eager_inv_def eager_return_def in_flight_def)


lemma put_inside: "i < length xs \<Longrightarrow> put i x h xs = xs[i := x]"
  by (simp add: put_def)

lemma eager_inv_settle:
  assumes "eager_inv s"
  shows "eager_inv (eager_settle i s)"
proof (cases "i < length (eg_promises s) \<and> (\<exists>r. eg_promises s ! i = Pending (Some r))")
  case False
  then show ?thesis
    using assms by (auto simp: eager_settle_def split: promise.splits option.splits)
next
  case True
  then obtain r where i: "i < length (eg_promises s)" and r: "eg_promises s ! i = Pending (Some r)"
    by blast
  have eq: "eager_settle i s =
      s\<lparr>eg_promises := (eg_promises s)[i := Fulfilled r], eg_jobs := eg_jobs s @ [(i, r)]\<rparr>"
    using i r by (simp add: eager_settle_def)
  have fresh: "i \<notin> fst ` set (eg_jobs s)"
    using assms r unfolding eager_inv_def by force
  have fl: "int (in_flight ((eg_promises s)[i := Fulfilled r])) + 1 = int (in_flight (eg_promises s))"
    using in_flight_update[OF i, of r] r by simp
  show ?thesis
    unfolding eq eager_inv_def
    using assms i r fresh fl unfolding eager_inv_def
    by (auto simp: nth_list_update)
qed

lemma eager_tick_eq:
  assumes "eg_jobs s = (i, r) # js" and "eg_mode s = Settled \<or> isOk r"
    and "i < length (eg_data s)" and "eg_returned s = None"
  shows "eager_tick s =
      (if eg_remaining s - 1 = 0
       then s\<lparr>eg_jobs := js, eg_data := (eg_data s)[i := slot_for (eg_mode s) r],
               eg_remaining := eg_remaining s - 1,
               eg_returned := Some (wrap (eg_mode s) ((eg_data s)[i := slot_for (eg_mode s) r]))\<rparr>
       else s\<lparr>eg_jobs := js, eg_data := (eg_data s)[i := slot_for (eg_mode s) r],
               eg_remaining := eg_remaining s - 1\<rparr>)"
proof (cases r)
  case (Ok v)
  then show ?thesis
    using assms
    by (simp add: eager_tick_def eager_then_def Let_def put_inside slot_for_def wrap_def resolve_def)
next
  case (Err e)
  then have "eg_mode s = Settled" using assms(2) by simp
  then show ?thesis
    using assms Err
    by (simp add: eager_tick_def eager_then_def Let_def put_inside slot_for_def wrap_def resolve_def)
qed


lemma eager_inv_job:
  "eager_inv s \<Longrightarrow> (i, r) \<in> set (eg_jobs s) \<Longrightarrow>
     i < length (eg_promises s) \<and> eg_promises s ! i = Fulfilled r"
  unfolding eager_inv_def by blast

lemma eager_inv_distinct: "eager_inv s \<Longrightarrow> distinct (map fst (eg_jobs s))"
  unfolding eager_inv_def by blast

lemma eager_inv_length: "eager_inv s \<Longrightarrow> length (eg_data s) = length (eg_promises s)"
  unfolding eager_inv_def by blast

lemma eager_inv_remaining:
  "eager_inv s \<Longrightarrow> eg_remaining s = int (in_flight (eg_promises s)) + int (length (eg_jobs s))"
  unfolding eager_inv_def by blast

lemma eager_inv_returned:
  "eager_inv s \<Longrightarrow>
     eg_returned s = (if eg_remaining s = 0 then Some (wrap (eg_mode s) (eg_data s)) else None)"
  unfolding eager_inv_def by blast

lemma eager_inv_pending:
  "eager_inv s \<Longrightarrow> i < length (eg_promises s) \<Longrightarrow> eg_promises s ! i = Pending x \<Longrightarrow>
     good (eg_mode s) x \<and> eg_data s ! i = Hole"
  unfolding eager_inv_def by blast

lemma eager_inv_fulfilled:
  "eager_inv s \<Longrightarrow> i < length (eg_promises s) \<Longrightarrow> eg_promises s ! i = Fulfilled r \<Longrightarrow>
     good (eg_mode s) (Some r) \<and>
     eg_data s ! i = (if i \<in> fst ` set (eg_jobs s) then Hole else slot_for (eg_mode s) r)"
  unfolding eager_inv_def by blast

lemma eager_inv_tick:
  assumes "eager_inv s"
  shows "eager_inv (eager_tick s)"
proof (cases "eg_jobs s")
  case Nil
  then show ?thesis using assms by (simp add: eager_tick_def)
next
  case (Cons j js)
  obtain i r where j: "j = (i, r)" by (cases j)
  have i: "i < length (eg_promises s)" and f: "eg_promises s ! i = Fulfilled r"
    using eager_inv_job[OF assms, of i r] Cons j by simp_all
  have "good (eg_mode s) (Some r)"
    using eager_inv_fulfilled[OF assms i f] by simp
  then have g: "eg_mode s = Settled \<or> isOk r"
    by (simp add: good_def)
  have len: "i < length (eg_data s)"
    using eager_inv_length[OF assms] i by simp
  have fresh: "i \<notin> fst ` set js"
    using eager_inv_distinct[OF assms] Cons j by simp
  have pos: "eg_remaining s \<ge> 1"
    using eager_inv_remaining[OF assms] Cons by simp
  have none: "eg_returned s = None"
    using eager_inv_returned[OF assms] pos by simp
  let ?d = "(eg_data s)[i := slot_for (eg_mode s) r]"
  note eq = eager_tick_eq[OF Cons[unfolded j] g len none]
  have inv1: "length ?d = length (eg_promises s)"
    using eager_inv_length[OF assms] by simp
  have inv2: "distinct (map fst js)"
    using eager_inv_distinct[OF assms] Cons by simp
  have inv3: "\<forall>i r. (i, r) \<in> set js \<longrightarrow>
        i < length (eg_promises s) \<and> eg_promises s ! i = Fulfilled r"
    using eager_inv_job[OF assms] Cons by (metis list.set_intros(2))
  have inv4: "\<forall>k x. k < length (eg_promises s) \<and> eg_promises s ! k = Pending x \<longrightarrow>
        good (eg_mode s) x \<and> ?d ! k = Hole"
  proof (intro allI impI)
    fix k x assume a: "k < length (eg_promises s) \<and> eg_promises s ! k = Pending x"
    then have b: "good (eg_mode s) x \<and> eg_data s ! k = Hole"
      using eager_inv_pending[OF assms] by blast
    have "k \<noteq> i" using a f by auto
    then show "good (eg_mode s) x \<and> ?d ! k = Hole"
      using b by simp
  qed
  have inv5: "\<forall>k r'. k < length (eg_promises s) \<and> eg_promises s ! k = Fulfilled r' \<longrightarrow>
        good (eg_mode s) (Some r') \<and>
        ?d ! k = (if k \<in> fst ` set js then Hole else slot_for (eg_mode s) r')"
  proof (intro allI impI)
    fix k r' assume a: "k < length (eg_promises s) \<and> eg_promises s ! k = Fulfilled r'"
    then have b: "good (eg_mode s) (Some r') \<and>
        eg_data s ! k = (if k \<in> fst ` set (eg_jobs s) then Hole else slot_for (eg_mode s) r')"
      using eager_inv_fulfilled[OF assms] by blast
    show "good (eg_mode s) (Some r') \<and>
        ?d ! k = (if k \<in> fst ` set js then Hole else slot_for (eg_mode s) r')"
    proof (cases "k = i")
      case True
      then show ?thesis using a b f fresh len by simp
    next
      case False
      then show ?thesis using a b Cons j len by simp
    qed
  qed
  have inv6: "eg_remaining s - 1 = int (in_flight (eg_promises s)) + int (length js)"
    using eager_inv_remaining[OF assms] Cons by simp
  have mode: "eg_mode (eager_tick s) = eg_mode s" and ps: "eg_promises (eager_tick s) = eg_promises s"
    and js: "eg_jobs (eager_tick s) = js" and d: "eg_data (eager_tick s) = ?d"
    and n: "eg_remaining (eager_tick s) = eg_remaining s - 1"
    and ret: "eg_returned (eager_tick s) =
        (if eg_remaining s - 1 = 0 then Some (wrap (eg_mode s) ?d) else None)"
    unfolding eq using none by simp_all
  show ?thesis
    unfolding eager_inv_def mode ps js d n ret
    using inv1 inv2 inv3 inv4 inv5 inv6 by blast
qed

lemma eager_inv_step: "eager_inv s \<Longrightarrow> eager_inv (eager_step s ev)"
  by (cases ev) (simp_all add: eager_inv_settle eager_inv_tick)

lemma eager_inv_run: "eager_inv s \<Longrightarrow> eager_inv (foldl eager_step s evs)"
  by (induction evs arbitrary: s) (simp_all add: eager_inv_step)

text \<open>The promises keep the results of their tasks.\<close>

lemma eager_settle_expect: "map expect (eg_promises (eager_settle i s)) = map expect (eg_promises s)"
  by (auto simp: eager_settle_def map_update list_update_same_conv split: promise.splits option.splits)

lemma eager_then_promises: "eg_promises (eager_then i r s) = eg_promises s"
  by (auto simp: eager_then_def Let_def split: result.splits)

lemma eager_then_mode: "eg_mode (eager_then i r s) = eg_mode s"
  by (auto simp: eager_then_def Let_def split: result.splits)

lemma eager_step_expect: "map expect (eg_promises (eager_step s ev)) = map expect (eg_promises s)"
  by (cases ev) (auto simp: eager_settle_expect eager_tick_def eager_then_promises split: list.splits)

lemma eager_step_mode: "eg_mode (eager_step s ev) = eg_mode s"
  by (cases ev) (auto simp: eager_settle_def eager_tick_def eager_then_mode split: list.splits promise.splits option.splits)

lemma eager_run_expect:
  "map expect (eg_promises (foldl eager_step s evs)) = map expect (eg_promises s)"
  by (induction evs arbitrary: s) (simp_all add: eager_step_expect)

lemma eager_run_mode: "eg_mode (foldl eager_step s evs) = eg_mode s"
  by (induction evs arbitrary: s) (simp_all add: eager_step_mode)

text \<open>Once nothing is in flight and no job is queued, the buffer is complete.\<close>

lemma eager_inv_complete:
  assumes "eager_inv s" and "in_flight (eg_promises s) = 0" and "eg_jobs s = []"
  shows "eg_returned s =
     Some (wrap (eg_mode s) (map (\<lambda>p. slot_for (eg_mode s) (the (expect p))) (eg_promises s)))"
proof -
  have none: "\<not> is_pending p" if "p \<in> set (eg_promises s)" for p
    using assms(2) that unfolding in_flight_def by (simp add: filter_empty_conv)
  have "eg_data s = map (\<lambda>p. slot_for (eg_mode s) (the (expect p))) (eg_promises s)"
  proof (rule nth_equalityI)
    show "length (eg_data s) = length (map (\<lambda>p. slot_for (eg_mode s) (the (expect p))) (eg_promises s))"
      using eager_inv_length[OF assms(1)] by simp
  next
    fix i assume "i < length (eg_data s)"
    then have i: "i < length (eg_promises s)"
      using eager_inv_length[OF assms(1)] by simp
    then have "\<not> is_pending (eg_promises s ! i)"
      using none[of "eg_promises s ! i"] by simp
    then obtain r where r: "eg_promises s ! i = Fulfilled r"
      by (cases "eg_promises s ! i") auto
    have "eg_data s ! i = slot_for (eg_mode s) r"
      using eager_inv_fulfilled[OF assms(1) i r] assms(3) by simp
    then show "eg_data s ! i = map (\<lambda>p. slot_for (eg_mode s) (the (expect p))) (eg_promises s) ! i"
      using i r by simp
  qed
  moreover have "eg_remaining s = 0"
    using eager_inv_remaining[OF assms(1)] assms(2,3) by simp
  ultimately show ?thesis
    using eager_inv_returned[OF assms(1)] by simp
qed

lemma eager_inv_incomplete:
  assumes "eager_inv s" and "\<not> (in_flight (eg_promises s) = 0 \<and> eg_jobs s = [])"
  shows "eg_returned s = None"
proof -
  have "in_flight (eg_promises s) \<noteq> 0 \<or> length (eg_jobs s) \<noteq> 0"
    using assms(2) by simp
  then have "eg_remaining s \<noteq> 0"
    using eager_inv_remaining[OF assms(1)] by linarith
  then show ?thesis
    using eager_inv_returned[OF assms(1)] by simp
qed

subsection \<open>A run that completes every promise\<close>

text \<open>
  Settling every index and then running as many jobs as there are promises leaves no
  promise pending and no job queued, when every promise has a Result to settle with.
\<close>

lemma eager_settle_length: "length (eg_promises (eager_settle i s)) = length (eg_promises s)"
  by (simp add: eager_settle_def split: promise.splits option.splits)

lemma eager_settle_done:
  assumes "i < length (eg_promises s)" and "expect (eg_promises s ! i) \<noteq> None"
  shows "\<not> is_pending (eg_promises (eager_settle i s) ! i)"
  using assms by (auto simp: eager_settle_def split: promise.splits option.splits)

lemma eager_settle_keeps:
  assumes "j < length (eg_promises s)" and "\<not> is_pending (eg_promises s ! j)"
  shows "\<not> is_pending (eg_promises (eager_settle i s) ! j)"
  using assms
  by (cases "i = j") (auto simp: eager_settle_def split: promise.splits option.splits)

lemma eager_settle_nth_expect:
  assumes "j < length (eg_promises s)"
  shows "expect (eg_promises (eager_settle i s) ! j) = expect (eg_promises s ! j)"
proof -
  have "map expect (eg_promises (eager_settle i s)) ! j = map expect (eg_promises s) ! j"
    by (simp only: eager_settle_expect)
  then show ?thesis using assms by (simp add: eager_settle_length)
qed

lemma eager_settles:
  assumes "j < length (eg_promises s)" and "expect (eg_promises s ! j) \<noteq> None"
    and "j \<in> set is \<or> \<not> is_pending (eg_promises s ! j)"
  shows "\<not> is_pending (eg_promises (foldl eager_step s (map Settle is)) ! j)"
  using assms
proof (induction "is" arbitrary: s)
  case Nil
  then show ?case by simp
next
  case (Cons i "is")
  let ?s = "eager_settle i s"
  have l: "j < length (eg_promises ?s)"
    using Cons.prems(1) by (simp add: eager_settle_length)
  have e: "expect (eg_promises ?s ! j) \<noteq> None"
    using Cons.prems(1,2) by (simp add: eager_settle_nth_expect)
  have "j \<in> set is \<or> \<not> is_pending (eg_promises ?s ! j)"
  proof (cases "j = i")
    case True
    then show ?thesis using eager_settle_done[OF Cons.prems(1,2)] by simp
  next
    case False
    then show ?thesis
      using Cons.prems(3) eager_settle_keeps[OF Cons.prems(1), of i] by auto
  qed
  then show ?case using Cons.IH[OF l e] by simp
qed

lemma eager_settles_length:
  "length (eg_promises (foldl eager_step s (map Settle is))) = length (eg_promises s)"
  by (induction "is" arbitrary: s) (simp_all add: eager_settle_length)

lemma eager_settles_all:
  assumes "\<forall>p \<in> set (eg_promises s). expect p \<noteq> None"
  shows "in_flight (eg_promises (foldl eager_step s (map Settle [0..<length (eg_promises s)]))) = 0"
proof -
  let ?u = "foldl eager_step s (map Settle [0..<length (eg_promises s)])"
  have "\<not> is_pending (eg_promises ?u ! j)" if "j < length (eg_promises ?u)" for j
  proof -
    have j: "j < length (eg_promises s)" using that by (simp add: eager_settles_length)
    then have "expect (eg_promises s ! j) \<noteq> None" using assms by simp
    then show ?thesis using eager_settles[OF j] j by simp
  qed
  then have "\<forall>p \<in> set (eg_promises ?u). \<not> is_pending p"
    by (auto simp: in_set_conv_nth)
  then show ?thesis by (simp add: in_flight_def filter_empty_conv)
qed

lemma eager_tick_jobs: "eg_jobs (eager_tick s) = tl (eg_jobs s)"
  by (cases "eg_jobs s")
     (auto simp: eager_tick_def eager_then_def Let_def split: result.splits)

lemma eager_tick_promises: "eg_promises (eager_tick s) = eg_promises s"
  by (cases "eg_jobs s") (auto simp: eager_tick_def eager_then_promises)

lemma eager_ticks:
  "length (eg_jobs s) \<le> n \<Longrightarrow>
     eg_jobs (foldl eager_step s (replicate n Tick)) = [] \<and>
     eg_promises (foldl eager_step s (replicate n Tick)) = eg_promises s"
proof (induction n arbitrary: s)
  case 0
  then show ?case by simp
next
  case (Suc n)
  have "length (eg_jobs (eager_tick s)) \<le> n"
    using Suc.prems by (simp add: eager_tick_jobs)
  then show ?case using Suc.IH[of "eager_tick s"] by (simp add: eager_tick_promises)
qed

lemma eager_inv_jobs_bound:
  assumes "eager_inv s"
  shows "length (eg_jobs s) \<le> length (eg_promises s)"
proof -
  have "fst ` set (eg_jobs s) \<subseteq> {..<length (eg_promises s)}"
    using eager_inv_job[OF assms] by force
  then have "card (fst ` set (eg_jobs s)) \<le> card {..<length (eg_promises s)}"
    by (intro card_mono) simp_all
  moreover have "card (fst ` set (eg_jobs s)) = length (eg_jobs s)"
    using distinct_card[OF eager_inv_distinct[OF assms]] by simp
  ultimately show ?thesis by simp
qed

lemma eager_fair_run:
  assumes "eager_inv s" and "\<forall>p \<in> set (eg_promises s). expect p \<noteq> None"
    and "n = length (eg_promises s)"
    and "u = foldl eager_step s (map Settle [0..<n] @ replicate n Tick)"
  shows "in_flight (eg_promises u) = 0 \<and> eg_jobs u = []"
proof -
  let ?a = "foldl eager_step s (map Settle [0..<n])"
  have inv: "eager_inv ?a" by (rule eager_inv_run[OF assms(1)])
  have z: "in_flight (eg_promises ?a) = 0"
    unfolding assms(3) by (rule eager_settles_all[OF assms(2)])
  have "length (eg_jobs ?a) \<le> n"
    using eager_inv_jobs_bound[OF inv] by (simp add: eager_settles_length assms(3))
  then have "eg_jobs (foldl eager_step ?a (replicate n Tick)) = [] \<and>
      eg_promises (foldl eager_step ?a (replicate n Tick)) = eg_promises ?a"
    by (rule eager_ticks)
  then show ?thesis unfolding assms(4) using z by simp
qed

section \<open>Proofs: the entry point\<close>

lemma run_eagerly: "foldl call_step (Eagerly s) evs = Eagerly (foldl eager_step s evs)"
  by (induction evs arbitrary: s) simp_all

lemma run_eagerly_alt:
  "foldl call_step_alt (Eagerly_alt s) evs = Eagerly_alt (foldl eager_step s evs)"
  by (induction evs arbitrary: s) simp_all

lemma allEager_promises: "eg_promises (allEager ts m) = map start ts"
  by (simp add: allEager_def promise_all_def eager_return_def eager_register_def)

lemma allEager_alt_promises: "eg_promises (allEager_alt ts m) = map start ts"
  by (simp add: allEager_alt_def promise_all_def eager_return_def eager_register_def)

lemma allEager_mode: "eg_mode (allEager ts m) = m"
  by (simp add: allEager_def promise_all_def eager_return_def eager_register_def)

lemma allEager_alt_mode: "eg_mode (allEager_alt ts m) = m"
  by (simp add: allEager_alt_def promise_all_def eager_return_def eager_register_def)

lemma allEager_inv:
  assumes "\<forall>t \<in> set ts. good m (outcome t)"
  shows "eager_inv (allEager ts m)"
proof (cases "ts = []")
  case True
  then show ?thesis
    using eager_inv_return[of m]
    by (cases m) (simp_all add: allEager_def promise_all_def wrap_def)
next
  case False
  then show ?thesis
    using eager_inv_register[OF assms False]
    by (cases m) (simp_all add: allEager_def promise_all_def)
qed

lemma allEager_alt_inv:
  assumes "\<forall>t \<in> set ts. good m (outcome t)"
  shows "eager_inv (allEager_alt ts m)"
proof (cases "ts = []")
  case True
  then show ?thesis
    using eager_inv_return[of m]
    by (cases m) (simp_all add: allEager_alt_def promise_all_def wrap_def)
next
  case False
  then show ?thesis
    using eager_inv_register[OF assms False]
    by (cases m) (simp_all add: allEager_alt_def promise_all_def)
qed

lemma all_ts_unbounded:
  "concurrency_of opts = Unbounded \<Longrightarrow>
     all_ts promises opts = Eagerly (allEager (tasks_of promises) (mode_of opts))"
  by (cases promises) (simp_all add: all_ts_def allLazy_def)

lemma all_ts_promises:
  "all_ts (Promises ts) opts = Eagerly (allEager ts (mode_of opts))"
  by (simp add: all_ts_def)

lemma all_alt_promises:
  "all_alt (Promises ts) opts = Eagerly_alt (allEager_alt ts (mode_of opts))"
  by (simp add: all_alt_def)

text \<open>
  What a call of \<open>allEager\<close> has returned after any run, when no task fails in default
  mode: nothing until every promise is fulfilled and every callback has run, and then the
  buffer, which holds at each index what the task at that index produced.
\<close>

lemma eager_run_returned:
  assumes "\<forall>t \<in> set ts. good m (outcome t)"
    and "s = foldl eager_step (allEager ts m) evs"
  shows "eg_returned s =
     (if in_flight (eg_promises s) = 0 \<and> eg_jobs s = []
      then Some (wrap m (map (\<lambda>t. slot_for m (the (outcome t))) ts)) else None)"
proof -
  have inv: "eager_inv s"
    unfolding assms(2) by (rule eager_inv_run[OF allEager_inv[OF assms(1)]])
  have mode: "eg_mode s = m"
    unfolding assms(2) by (simp add: eager_run_mode allEager_mode)
  have "map expect (eg_promises s) = map expect (map start ts)"
    unfolding assms(2) by (simp add: eager_run_expect allEager_promises)
  then have ex: "map expect (eg_promises s) = map outcome ts"
    by (simp add: expect_start)
  have "map (\<lambda>p. slot_for m (the (expect p))) (eg_promises s) =
      map (\<lambda>x. slot_for m (the x)) (map expect (eg_promises s))"
    by simp
  also have "\<dots> = map (\<lambda>t. slot_for m (the (outcome t))) ts"
    unfolding ex by simp
  finally have sl: "map (\<lambda>p. slot_for m (the (expect p))) (eg_promises s) =
      map (\<lambda>t. slot_for m (the (outcome t))) ts" .
  show ?thesis
  proof (cases "in_flight (eg_promises s) = 0 \<and> eg_jobs s = []")
    case True
    then show ?thesis
      using eager_inv_complete[OF inv] mode sl by simp
  next
    case False
    then show ?thesis
      using eager_inv_incomplete[OF inv False] by simp
  qed
qed

text \<open>
  C2. When every task resolves to \<open>Ok (v i)\<close>, \<open>all\<close> in default mode with unbounded
  concurrency holds, after any run, the promise of every task of the input; it has
  returned nothing before every task has completed and been delivered, and then it has
  returned \<open>Ok [v 0, ..., v (N - 1)]\<close> in index order, whatever the order of the events
  of the run; and the run that settles every task and then runs \<open>N\<close> jobs ends with
  that value returned.
\<close>

theorem all_default_unbounded_in_order:
  assumes "map outcome (tasks_of promises) = map (\<lambda>v. Some (Ok v)) vs"
    and "mode_of opts = Default"
    and "concurrency_of opts = Unbounded"
  shows "returned (run promises opts evs) =
           (if all_delivered (run promises opts evs) then Some (Res (Ok (map Value vs))) else None)
       \<and> map expect (promises_of (run promises opts evs)) = map outcome (tasks_of promises)
       \<and> returned (run promises opts (map Settle [0..<length vs] @ replicate (length vs) Tick)) =
           Some (Res (Ok (map Value vs)))"
proof -
  let ?ts = "tasks_of promises"
  let ?fair = "map Settle [0..<length vs] @ replicate (length vs) Tick"
  have r: "run promises opts es = Eagerly (foldl eager_step (allEager ?ts Default) es)" for es
    using assms(2,3) by (simp add: run_def all_ts_unbounded run_eagerly)
  have g: "\<forall>t \<in> set ?ts. good Default (outcome t)"
  proof
    fix t assume "t \<in> set ?ts"
    then have "outcome t \<in> set (map outcome ?ts)" by simp
    then have "outcome t \<in> set (map (\<lambda>v. Some (Ok v)) vs)"
      using assms(1) by simp
    then show "good Default (outcome t)"
      by (auto simp: good_def)
  qed
  have "map (\<lambda>t. slot_for Default (the (outcome t))) ?ts =
      map (\<lambda>x. slot_for Default (the x)) (map outcome ?ts)"
    by simp
  also have "\<dots> = map Value vs"
    unfolding assms(1) by (simp add: slot_for_def)
  finally have v: "map (\<lambda>t. slot_for Default (the (outcome t))) ?ts = map Value vs" .
  have ret: "returned (run promises opts es) =
      (if all_delivered (run promises opts es) then Some (Res (Ok (map Value vs))) else None)" for es
    unfolding r using eager_run_returned[OF g refl, of es] v
    by (simp add: all_delivered_def wrap_def)
  have "map expect (eg_promises (foldl eager_step (allEager ?ts Default) evs)) =
      map expect (map start ?ts)"
    by (simp add: eager_run_expect allEager_promises)
  then have tie: "map expect (promises_of (run promises opts evs)) = map outcome ?ts"
    unfolding r by (simp add: expect_start)
  have len: "length vs = length (eg_promises (allEager ?ts Default))"
  proof -
    have "length ?ts = length vs"
      using arg_cong[OF assms(1), of length] by simp
    then show ?thesis by (simp add: allEager_promises)
  qed
  have some: "\<forall>p \<in> set (eg_promises (allEager ?ts Default)). expect p \<noteq> None"
  proof
    fix p assume "p \<in> set (eg_promises (allEager ?ts Default))"
    then obtain t where t: "t \<in> set ?ts" "p = start t"
      by (auto simp: allEager_promises)
    then have "outcome t \<in> set (map outcome ?ts)" by simp
    then have "outcome t \<in> set (map (\<lambda>v. Some (Ok v)) vs)"
      using assms(1) by simp
    then show "expect p \<noteq> None" using t(2) by (auto simp: expect_start)
  qed
  have "all_delivered (run promises opts ?fair)"
    unfolding r using eager_fair_run[OF allEager_inv[OF g] some len refl]
    by (simp add: all_delivered_def)
  then have "returned (run promises opts ?fair) = Some (Res (Ok (map Value vs)))"
    using ret[of ?fair] by simp
  then show ?thesis using ret[of evs] tie by simp
qed

theorem all_default_unbounded_in_order_witness:
  "returned (run (Promises [Deferred (Ok (1::nat)), Resolved (Ok 2), Deferred (Ok 3) :: (nat, nat) task])
       None [Settle 2, Tick, Tick, Settle 0, Tick]) = Some (Res (Ok [Value 1, Value 2, Value 3]))
   \<and> returned (run (Promises [Deferred (Ok (1::nat)), Resolved (Ok 2), Deferred (Ok 3) :: (nat, nat) task])
       None [Settle 2, Tick, Tick, Settle 0]) = None
   \<and> returned (run (Promises [Deferred (Ok (1::nat)), Resolved (Ok 2), Deferred (Ok 3) :: (nat, nat) task])
       None [Settle 0, Settle 1, Settle 2, Tick, Tick, Tick]) = Some (Res (Ok [Value 1, Value 2, Value 3]))"
proof -
  let ?p = "Promises [Deferred (Ok (1::nat)), Resolved (Ok 2), Deferred (Ok 3) :: (nat, nat) task]"
  have a: "map outcome (tasks_of ?p) = map (\<lambda>v. Some (Ok v)) [1, 2, 3]"
    by simp
  have m: "mode_of None = Default" and c: "concurrency_of None = Unbounded"
    by (simp_all add: mode_of_def concurrency_of_def)
  have d: "all_delivered (run ?p None [Settle 2, Tick, Tick, Settle 0, Tick])"
    by code_simp
  have e: "\<not> all_delivered (run ?p None [Settle 2, Tick, Tick, Settle 0])"
    by code_simp
  have f: "map Settle [0..<length [1::nat, 2, 3]] @ replicate (length [1::nat, 2, 3]) Tick =
      [Settle 0, Settle 1, Settle 2, Tick, Tick, Tick]"
    by (simp add: upt_rec numeral_3_eq_3)
  show ?thesis
    using all_default_unbounded_in_order[OF a m c, of "[Settle 2, Tick, Tick, Settle 0, Tick]"]
      all_default_unbounded_in_order[OF a m c, of "[Settle 2, Tick, Tick, Settle 0]"] d e
    unfolding f by simp
qed

text \<open>
  C9. For an empty input list the call has returned before any event: \<open>Ok []\<close> in
  default mode and \<open>[]\<close> in settled mode, with no promise created and no job queued.
  Both copies of the file agree, and so does \<open>allLazy\<close> of the other copy when it is
  called on its own.
\<close>

theorem all_empty_returns_at_once:
  assumes "tasks_of promises = []"
  shows "returned (all_ts promises opts) =
           Some (if mode_of opts = Settled then Arr [] else Res (Ok []))
       \<and> promises_of (all_ts promises opts) = [] \<and> idle (all_ts promises opts)
       \<and> returned_alt (all_alt promises opts) =
           Some (if mode_of opts = Settled then Arr [] else Res (Ok []))
       \<and> promises_of_alt (all_alt promises opts) = [] \<and> idle_alt (all_alt promises opts)
       \<and> returned_alt (allLazy_alt (thunks_of promises) m c) =
           Some (if m = Settled then Arr [] else Res (Ok []))
       \<and> promises_of_alt (allLazy_alt (thunks_of promises) m c) = []"
proof -
  have e: "thunks_of promises = []"
    by (rule tasks_of_Nil[OF assms])
  have f: "\<not> first_is_function promises"
    using e by (cases promises rule: first_is_function.cases) simp_all
  have l: "returned_alt (allLazy_alt (thunks_of promises) m c) =
           Some (if m = Settled then Arr [] else Res (Ok []))
       \<and> promises_of_alt (allLazy_alt (thunks_of promises) m c) = []"
    unfolding e
    by (cases c)
       (simp_all add: allLazy_alt_def allEager_alt_def eager_return_def pool_init_def called_def)
  show ?thesis
    using assms f l
    by (simp add: all_ts_def all_alt_def allEager_def allEager_alt_def promise_all_def
        eager_return_def)
qed

theorem all_empty_returns_at_once_witness:
  "returned (all_ts (Thunks ([] :: (nat, nat) thunk list))
       (Some \<lparr>opt_mode = Some Settled, opt_concurrency = Some (Limit 2)\<rparr>)) = Some (Arr [])
   \<and> returned (all_ts (Promises ([] :: (nat, nat) task list)) None) = Some (Res (Ok []))"
  using all_empty_returns_at_once[of "Thunks ([] :: (nat, nat) thunk list)"
      "Some \<lparr>opt_mode = Some Settled, opt_concurrency = Some (Limit 2)\<rparr>"]
    all_empty_returns_at_once[of "Promises ([] :: (nat, nat) task list)" None]
  by (simp add: mode_of_def called_def)

text \<open>
  C10. \<open>all\<close> takes the lazy path exactly when the first element of the input is a
  function, that is for a non-empty array of thunks. An array of promises is handled by
  \<open>allEager\<close> whatever the options say: a number given as \<open>concurrency\<close> changes
  nothing in any run and every promise has its callback registered at once. An empty
  array goes to \<open>allEager\<close>, also when it is an array of thunks. Both copies agree.
\<close>

theorem all_dispatch_on_first_element:
  "(first_is_function promises \<longleftrightarrow> (\<exists>th ths. promises = Thunks (th # ths)))
   \<and> all_ts promises opts =
       (if first_is_function promises
        then allLazy (thunks_of promises) (mode_of opts) (concurrency_of opts)
        else Eagerly (allEager (tasks_of promises) (mode_of opts)))
   \<and> run (Promises ps) (Some \<lparr>opt_mode = m, opt_concurrency = Some (Limit k)\<rparr>) evs =
       run (Promises ps) (Some \<lparr>opt_mode = m, opt_concurrency = Some Unbounded\<rparr>) evs
   \<and> promises_of (all_ts (Promises ps) opts) = map start ps
   \<and> all_ts (Thunks []) opts = Eagerly (allEager [] (mode_of opts))
   \<and> all_alt promises opts =
       (if first_is_function promises
        then allLazy_alt (thunks_of promises) (mode_of opts) (concurrency_of opts)
        else Eagerly_alt (allEager_alt (tasks_of promises) (mode_of opts)))
   \<and> run_alt (Promises ps) (Some \<lparr>opt_mode = m, opt_concurrency = Some (Limit k)\<rparr>) evs =
       run_alt (Promises ps) (Some \<lparr>opt_mode = m, opt_concurrency = Some Unbounded\<rparr>) evs
   \<and> promises_of_alt (all_alt (Promises ps) opts) = map start ps
   \<and> all_alt (Thunks []) opts = Eagerly_alt (allEager_alt [] (mode_of opts))"
proof -
  have a: "first_is_function promises \<longleftrightarrow> (\<exists>th ths. promises = Thunks (th # ths))"
    by (cases promises rule: first_is_function.cases) simp_all
  have b: "mode_of (Some \<lparr>opt_mode = m, opt_concurrency = Some (Limit k)\<rparr>) =
      mode_of (Some \<lparr>opt_mode = m, opt_concurrency = Some Unbounded\<rparr>)"
    by (simp add: mode_of_def)
  show ?thesis
    using a b
    by (simp add: all_ts_def all_alt_def run_def run_alt_def allEager_promises
        allEager_alt_promises called_def)
qed

theorem all_dispatch_on_first_element_witness:
  "run (Promises [Deferred (Ok (1::nat)), Never :: (nat, nat) task])
       (Some \<lparr>opt_mode = None, opt_concurrency = Some (Limit 1)\<rparr>) [Settle 0, Tick] =
     run (Promises [Deferred (Ok (1::nat)), Never :: (nat, nat) task])
       (Some \<lparr>opt_mode = None, opt_concurrency = Some Unbounded\<rparr>) [Settle 0, Tick]
   \<and> promises_of (all_ts (Promises [Deferred (Ok (1::nat)), Never :: (nat, nat) task])
       (Some \<lparr>opt_mode = None, opt_concurrency = Some (Limit 1)\<rparr>)) =
     map start [Deferred (Ok (1::nat)), Never :: (nat, nat) task]"
  using all_dispatch_on_first_element[of "Promises [Deferred (Ok (1::nat)), Never :: (nat, nat) task]"
        "Some \<lparr>opt_mode = None, opt_concurrency = Some (Limit 1)\<rparr>"
        "[Deferred (Ok (1::nat)), Never :: (nat, nat) task]" None 1 "[Settle 0, Tick]"]
  by blast

section \<open>The bounded loop of \<open>src/all.ts\<close> can miss an Error\<close>

text \<open>
  The loop of \<open>allLazy\<close> learns of an Error only from the winner of a race. When two
  members of \<open>executing\<close> are fulfilled before the continuation of the \<open>await\<close> runs,
  the callbacks of both delete them from the set, the race is won by the first and the
  result of the second is never looked at.
\<close>

text \<open>
  C1 (evaluated). Three thunks with \<open>concurrency: 2\<close> in default mode: the first two
  are fulfilled in the same turn with \<open>Ok 1\<close> and \<open>Err 2\<close>, the third later with
  \<open>Err 3\<close>. The call returns \<open>Err 3\<close>, not the Error that settled first; the other
  copy of the file returns \<open>Err 2\<close> on the same run.
\<close>

theorem race_returns_later_error:
  "returned (run (Thunks [Makes (Deferred (Ok (1::nat))), Makes (Deferred (Err (2::nat))), Makes (Deferred (Err 3))])
       (Some \<lparr>opt_mode = None, opt_concurrency = Some (Limit 2)\<rparr>)
       [Settle 0, Settle 1, Tick, Tick, Tick, Tick, Tick, Settle 2, Tick, Tick, Tick]) =
     Some (Res (Err 3))
   \<and> returned_alt (run_alt (Thunks [Makes (Deferred (Ok (1::nat))), Makes (Deferred (Err (2::nat))), Makes (Deferred (Err 3))])
       (Some \<lparr>opt_mode = None, opt_concurrency = Some (Limit 2)\<rparr>)
       [Settle 0, Settle 1, Tick, Tick, Tick, Tick, Tick, Settle 2, Tick, Tick, Tick]) =
     Some (Res (Err 2))"
  by code_simp

text \<open>
  C7 (evaluated). Two thunks whose promises are already fulfilled, with \<open>Ok 1\<close> and
  \<open>Err 2\<close>, and \<open>concurrency: 2\<close> in default mode: exactly one task fails, and the call
  returns \<open>Ok\<close> of an array that holds only the first value. The other copy of the file
  returns \<open>Err 2\<close>. With \<open>concurrency: 1\<close> and a third thunk the same call returns
  \<open>Err 2\<close> and the third thunk is not started.
\<close>

theorem race_returns_ok_despite_error:
  "returned (run (Thunks [Makes (Resolved (Ok (1::nat))), Makes (Resolved (Err (2::nat)))])
       (Some \<lparr>opt_mode = None, opt_concurrency = Some (Limit 2)\<rparr>)
       [Tick, Tick, Tick, Tick, Tick]) =
     Some (Res (Ok [Value 1]))
   \<and> returned_alt (run_alt (Thunks [Makes (Resolved (Ok (1::nat))), Makes (Resolved (Err (2::nat)))])
       (Some \<lparr>opt_mode = None, opt_concurrency = Some (Limit 2)\<rparr>)
       [Tick, Tick, Tick, Tick, Tick]) =
     Some (Res (Err 2))
   \<and> returned (run (Thunks [Makes (Resolved (Ok (1::nat))), Makes (Resolved (Err (2::nat))), Makes (Resolved (Ok 3))])
       (Some \<lparr>opt_mode = None, opt_concurrency = Some (Limit 1)\<rparr>)
       [Tick, Tick, Tick, Tick, Tick, Tick, Tick, Tick]) =
     Some (Res (Err 2))
   \<and> length (promises_of (run (Thunks [Makes (Resolved (Ok (1::nat))), Makes (Resolved (Err (2::nat))), Makes (Resolved (Ok 3))])
       (Some \<lparr>opt_mode = None, opt_concurrency = Some (Limit 1)\<rparr>)
       [Tick, Tick, Tick, Tick, Tick, Tick, Tick, Tick])) = 2"
  by code_simp

text \<open>
  C6 (evaluated). Two thunks fulfilled in the same turn with \<open>Ok 1\<close> and \<open>Err 2\<close>:
  with \<open>concurrency: 2\<close>, which is the number of tasks, the call returns \<open>Ok [1]\<close>, and
  with \<open>concurrency: "unbounded"\<close> it returns \<open>Err 2\<close> on the same run. The other copy
  of the file returns \<open>Err 2\<close> for both.
\<close>

theorem race_bounded_differs_from_unbounded:
  "returned (run (Thunks [Makes (Deferred (Ok (1::nat))), Makes (Deferred (Err (2::nat)))])
       (Some \<lparr>opt_mode = Some Default, opt_concurrency = Some (Limit 2)\<rparr>)
       [Settle 0, Settle 1, Tick, Tick, Tick, Tick, Tick]) =
     Some (Res (Ok [Value 1]))
   \<and> returned (run (Thunks [Makes (Deferred (Ok (1::nat))), Makes (Deferred (Err (2::nat)))])
       (Some \<lparr>opt_mode = Some Default, opt_concurrency = Some Unbounded\<rparr>)
       [Settle 0, Settle 1, Tick, Tick, Tick, Tick, Tick]) =
     Some (Res (Err 2))
   \<and> returned_alt (run_alt (Thunks [Makes (Deferred (Ok (1::nat))), Makes (Deferred (Err (2::nat)))])
       (Some \<lparr>opt_mode = Some Default, opt_concurrency = Some (Limit 2)\<rparr>)
       [Settle 0, Settle 1, Tick, Tick, Tick, Tick, Tick]) =
     Some (Res (Err 2))
   \<and> returned_alt (run_alt (Thunks [Makes (Deferred (Ok (1::nat))), Makes (Deferred (Err (2::nat)))])
       (Some \<lparr>opt_mode = Some Default, opt_concurrency = Some Unbounded\<rparr>)
       [Settle 0, Settle 1, Tick, Tick, Tick, Tick, Tick]) =
     Some (Res (Err 2))"
  by code_simp

section \<open>Proofs: the composition engine\<close>

lemma drive_from_all_ok:
  "yield_ok steps pre vs \<Longrightarrow> ret (pre @ vs) = Yields (Ok x) \<Longrightarrow>
     snd (drive_from i pre cs steps ret) = Done (Ok x)"
proof (induction steps pre vs arbitrary: i cs rule: yield_ok.induct)
  case (1 pre)
  then show ?case by simp
next
  case (2 st rest pre v vs)
  then show ?case by (simp add: Let_def case_prod_beta)
next
  case (3 pre v vs)
  then show ?case by simp
next
  case (4 st rest pre)
  then show ?case by simp
qed

lemma drive_from_error:
  "k < length steps \<Longrightarrow> yield_ok (take k steps) pre vs \<Longrightarrow>
   body (steps ! k) (pre @ vs) = Yields (Err e) \<Longrightarrow>
     snd (drive_from i pre cs steps ret) = Done (Err e) \<and>
     (\<forall>j. Ran j \<in> set (fst (drive_from i pre cs steps ret)) \<longrightarrow> j \<le> i + k)"
proof (induction k arbitrary: steps pre vs i cs)
  case 0
  then obtain st rest where s: "steps = st # rest" by (cases steps) auto
  from 0 have "vs = []" by (cases vs) simp_all
  with 0 s show ?case by (auto simp: Let_def)
next
  case (Suc k)
  then obtain st rest where s: "steps = st # rest" by (cases steps) auto
  from Suc.prems(2) s obtain v vs' where v: "vs = v # vs'"
    and b: "body st pre = Yields (Ok v)" and y: "yield_ok (take k rest) (pre @ [v]) vs'"
    by (cases vs) auto
  have k: "k < length rest" using Suc.prems(1) s by simp
  have e: "body (rest ! k) ((pre @ [v]) @ vs') = Yields (Err e)"
    using Suc.prems(3) s v by simp
  note ih = Suc.IH[OF k y e, of "Suc i" "if has_cleanup st then i # cs else cs"]
  show ?case
    using ih s b by (simp add: Let_def case_prod_beta)
qed

text \<open>
  C5. In the composition engine, if every step yields Ok and the terminal step returns
  \<open>Ok x\<close>, the composition is \<open>Ok x\<close>; and if the steps before step \<open>k\<close> yield Ok and
  step \<open>k\<close>, which is not the terminal step, yields \<open>Err e\<close>, the composition is
  \<open>Err e\<close> and no step after \<open>k\<close> has run.
\<close>

theorem gen_short_circuits:
  "(yield_ok steps [] vs \<and> ret vs = Yields (Ok x) \<longrightarrow> snd (gen steps ret) = Done (Ok x))
   \<and> (k < length steps \<and> yield_ok (take k steps) [] vs \<and> body (steps ! k) vs = Yields (Err e)
        \<longrightarrow> snd (gen steps ret) = Done (Err e)
          \<and> (\<forall>j. Ran j \<in> set (fst (gen steps ret)) \<longrightarrow> j \<le> k))"
  using drive_from_all_ok[of steps "[]" vs ret x 0 "[]"]
    drive_from_error[of k steps "[]" vs e 0 "[]" ret]
  by (simp add: gen_def)

theorem gen_short_circuits_witness:
  "snd (gen [\<lparr>body = (\<lambda>vs. Yields (Ok (1::nat))), has_cleanup = True\<rparr>,
             \<lparr>body = (\<lambda>vs. Yields (Ok (hd vs + 1))), has_cleanup = False\<rparr>]
            (\<lambda>vs. (Yields (Ok (sum_list vs)) :: (nat, nat, nat) yielded))) = Done (Ok 3)
   \<and> gen [\<lparr>body = (\<lambda>vs. Yields (Ok (1::nat))), has_cleanup = True\<rparr>,
           \<lparr>body = (\<lambda>vs. Yields (Err (7::nat))), has_cleanup = False\<rparr>,
           \<lparr>body = (\<lambda>vs. Yields (Ok 2)), has_cleanup = False\<rparr>]
          (\<lambda>vs. (Yields (Ok (sum_list vs)) :: (nat, nat, nat) yielded)) =
       ([Ran 0, Ran 1, Cleaned 0], Done (Err 7))"
proof -
  let ?a = "\<lparr>body = (\<lambda>vs. (Yields (Ok (1::nat)) :: (nat, nat, nat) yielded)), has_cleanup = True\<rparr>"
  let ?b = "\<lparr>body = (\<lambda>vs. (Yields (Ok (hd vs + 1)) :: (nat, nat, nat) yielded)), has_cleanup = False\<rparr>"
  let ?r = "\<lambda>vs. (Yields (Ok (sum_list vs)) :: (nat, nat, nat) yielded)"
  have "yield_ok [?a, ?b] [] [1, 2] \<and> ?r [1, 2] = Yields (Ok 3)"
    by simp
  then have "snd (gen [?a, ?b] ?r) = Done (Ok 3)"
    using gen_short_circuits[of "[?a, ?b]" "[1, 2]" ?r 3] by blast
  moreover have "gen [\<lparr>body = (\<lambda>vs. Yields (Ok (1::nat))), has_cleanup = True\<rparr>,
           \<lparr>body = (\<lambda>vs. Yields (Err (7::nat))), has_cleanup = False\<rparr>,
           \<lparr>body = (\<lambda>vs. Yields (Ok 2)), has_cleanup = False\<rparr>]
          (\<lambda>vs. (Yields (Ok (sum_list vs)) :: (nat, nat, nat) yielded)) =
       ([Ran 0, Ran 1, Cleaned 0], Done (Err 7))"
    by (simp add: gen_def)
  ultimately show ?thesis by blast
qed

section \<open>Proofs: the wrapper with retry\<close>

lemma attempt_from_bound:
  "n \<le> attempts p \<Longrightarrow> invocations (attempt_from p operation catch n ds) \<le> attempts p"
proof (induction p operation catch n ds rule: attempt_from.induct)
  case (1 p operation catch n ds)
  show ?case
    using 1 by (subst attempt_from.simps) (auto split: sum.splits option.splits)
qed

lemma attempt_from_first_ok:
  assumes "n \<le> k" and "k \<le> attempts p"
    and "\<forall>j. n \<le> j \<and> j < k \<longrightarrow> (\<exists>c e. operation j = Inr c \<and> catch c = Some e \<and> allows p e j)"
    and "operation k = Inl v"
  shows "invocations (attempt_from p operation catch n ds) = k \<and>
     final (attempt_from p operation catch n ds) = Returned (Ok v)"
  using assms
proof (induction p operation catch n ds rule: attempt_from.induct)
  case (1 p operation catch n ds)
  show ?case
  proof (cases "n = k")
    case True
    then show ?thesis
      using 1(5) by (subst (1 2) attempt_from.simps) simp
  next
    case False
    then have lt: "n < k" using 1(2) by simp
    then obtain c e where c: "operation n = Inr c" and e: "catch c = Some e" and a: "allows p e n"
      using 1(4) by blast
    have n: "n < attempts p" using lt 1(3) by simp
    have "invocations (attempt_from p operation catch (Suc n) (ds @ [delay_before_retry p n])) = k \<and>
        final (attempt_from p operation catch (Suc n) (ds @ [delay_before_retry p n])) = Returned (Ok v)"
      using 1(1)[OF c e] n a lt 1(3,4,5) by simp
    then show ?thesis
      using c e n a by (subst (1 2) attempt_from.simps) simp
  qed
qed

lemma attempt_from_all_fail:
  assumes "n \<le> attempts p" and "1 \<le> n"
    and "\<forall>j. n \<le> j \<and> j \<le> attempts p \<longrightarrow> (\<exists>c. operation j = Inr c \<and> catch c = Some (err j) \<and> allows p (err j) j)"
  shows "invocations (attempt_from p operation catch n ds) = attempts p \<and>
     final (attempt_from p operation catch n ds) = Returned (Err (err (attempts p)))"
  using assms
proof (induction p operation catch n ds rule: attempt_from.induct)
  case (1 p operation catch n ds)
  obtain c where c: "operation n = Inr c" and e: "catch c = Some (err n)"
    and a: "allows p (err n) n"
    using 1(2,4) by blast
  show ?case
  proof (cases "n < attempts p")
    case True
    have "invocations (attempt_from p operation catch (Suc n) (ds @ [delay_before_retry p n])) = attempts p \<and>
        final (attempt_from p operation catch (Suc n) (ds @ [delay_before_retry p n])) =
          Returned (Err (err (attempts p)))"
      using 1(1)[OF c e] True a 1(4) by simp
    then show ?thesis
      using c e True a by (subst (1 2) attempt_from.simps) simp
  next
    case False
    then have "n = attempts p" using 1(2) by simp
    then show ?thesis
      using c e by (subst (1 2) attempt_from.simps) simp
  qed
qed

text \<open>
  C8. With a RetryPolicy of \<open>attempts\<close> tries whose \<open>shouldRetry\<close> allows every retry
  (and a mapper that does not throw), both forms of the wrapper invoke the operation at most
  \<open>attempts\<close> times; when attempt \<open>k\<close> is the first that succeeds they invoke it exactly
  \<open>k\<close> times and return its Ok; and when every attempt fails they invoke it \<open>attempts\<close>
  times and return the Error of the last attempt.
\<close>

theorem retry_up_to_attempts:
  assumes "1 \<le> attempts p"
    and "\<forall>e n. allows p e n"
    and "\<forall>c. catch c = Some (handler c)"
  shows "invocations (tryPromise operation catch (Some p)) \<le> attempts p
     \<and> invocations (try_sync operation catch (Some p)) =
         invocations (tryPromise operation catch (Some p))
     \<and> final (try_sync operation catch (Some p)) = final (tryPromise operation catch (Some p))
     \<and> (1 \<le> k \<and> k \<le> attempts p \<and> (\<forall>j. 1 \<le> j \<and> j < k \<longrightarrow> (\<exists>c. operation j = Inr c))
          \<and> operation k = Inl v
        \<longrightarrow> invocations (tryPromise operation catch (Some p)) = k
          \<and> final (tryPromise operation catch (Some p)) = Returned (Ok v))
     \<and> ((\<forall>j. 1 \<le> j \<and> j \<le> attempts p \<longrightarrow> operation j = Inr (thrown j))
        \<longrightarrow> invocations (tryPromise operation catch (Some p)) = attempts p
          \<and> final (tryPromise operation catch (Some p)) =
              Returned (Err (handler (thrown (attempts p)))))"
proof -
  have a: "invocations (tryPromise operation catch (Some p)) \<le> attempts p"
    using attempt_from_bound[of 1 p operation catch "[]"] assms(1) by (simp add: tryPromise_def)
  have b: "invocations (try_sync operation catch (Some p)) =
         invocations (tryPromise operation catch (Some p))
     \<and> final (try_sync operation catch (Some p)) = final (tryPromise operation catch (Some p))"
    by (simp add: try_sync_def)
  have c: "invocations (tryPromise operation catch (Some p)) = k
          \<and> final (tryPromise operation catch (Some p)) = Returned (Ok v)"
    if "1 \<le> k \<and> k \<le> attempts p \<and> (\<forall>j. 1 \<le> j \<and> j < k \<longrightarrow> (\<exists>c. operation j = Inr c))
          \<and> operation k = Inl v"
  proof -
    have "\<forall>j. 1 \<le> j \<and> j < k \<longrightarrow> (\<exists>c e. operation j = Inr c \<and> catch c = Some e \<and> allows p e j)"
      using that assms(2,3) by blast
    then show ?thesis
      using attempt_from_first_ok[of 1 k p operation catch v "[]"] that
      by (simp add: tryPromise_def)
  qed
  have d: "invocations (tryPromise operation catch (Some p)) = attempts p
          \<and> final (tryPromise operation catch (Some p)) =
              Returned (Err (handler (thrown (attempts p))))"
    if "\<forall>j. 1 \<le> j \<and> j \<le> attempts p \<longrightarrow> operation j = Inr (thrown j)"
  proof -
    have "\<forall>j. 1 \<le> j \<and> j \<le> attempts p \<longrightarrow>
        (\<exists>c. operation j = Inr c \<and> catch c = Some (handler (thrown j)) \<and> allows p (handler (thrown j)) j)"
      using that assms(2,3) by simp
    then show ?thesis
      using attempt_from_all_fail[of 1 p operation catch "\<lambda>j. handler (thrown j)" "[]"] assms(1)
      by (simp add: tryPromise_def)
  qed
  show ?thesis
    using a b c d by blast
qed

theorem retry_up_to_attempts_witness:
  "invocations (try_sync (\<lambda>n. if n < 3 then Inr ''fail'' else Inl ''success'') (\<lambda>c. Some c)
       (Some \<lparr>attempts = 3, delayMs = 10, backoff = Exponential, shouldRetry = None\<rparr>)) = 3
   \<and> final (try_sync (\<lambda>n. if n < 3 then Inr ''fail'' else Inl ''success'') (\<lambda>c. Some c)
       (Some \<lparr>attempts = 3, delayMs = 10, backoff = Exponential, shouldRetry = None\<rparr>)) =
       Returned (Ok ''success'')"
proof -
  let ?p = "\<lparr>attempts = 3, delayMs = 10, backoff = Exponential,
      shouldRetry = (None :: (string \<Rightarrow> nat \<Rightarrow> bool) option)\<rparr>"
  let ?op = "\<lambda>n::nat. if n < 3 then Inr ''fail'' else (Inl ''success'' :: string + string)"
  have 1: "1 \<le> attempts ?p" by simp
  have 2: "\<forall>e n. allows ?p e n" by (simp add: allows_def)
  have 3: "\<forall>c::string. (\<lambda>c. Some c) c = Some ((\<lambda>c. c) c)" by simp
  have 4: "1 \<le> (3::nat) \<and> 3 \<le> attempts ?p \<and> (\<forall>j. 1 \<le> j \<and> j < 3 \<longrightarrow> (\<exists>c. ?op j = Inr c))
          \<and> ?op 3 = Inl ''success''"
    by simp
  show ?thesis
    using retry_up_to_attempts[OF 1 2 3, of ?op 3 "''success''"] 4
    by simp
qed

section \<open>Proofs: the bounded loop of \<open>src/all.ts\<close>\<close>

subsection \<open>What each operation changes\<close>

lemma set_add_set: "set (set_add p xs) = insert p (set xs)"
  by (auto simp: set_add_def)

lemma set_add_new: "p \<notin> set xs \<Longrightarrow> set_add p xs = xs @ [p]"
  by (simp add: set_add_def)

lemma set_add_nonempty: "set_add p xs \<noteq> []"
  by (auto simp: set_add_def)

lemma fire_Store: "Store q i r' \<in> set (map (fire p r) res) \<longleftrightarrow> q = p \<and> r' = r \<and> Then i \<in> set res"
proof (induction res)
  case Nil
  then show ?case by simp
next
  case (Cons re res)
  then show ?case by (cases re) auto
qed

lemma fire_Win: "Win k r' \<in> set (map (fire p r) res) \<longleftrightarrow> r' = r \<and> Raced k \<in> set res"
proof (induction res)
  case Nil
  then show ?case by simp
next
  case (Cons re res)
  then show ?case by (cases re) auto
qed


lemma promise_then_fields:
  "rc_mode (promise_then p re s) = rc_mode s"
  "rc_concurrency (promise_then p re s) = rc_concurrency s"
  "rc_promises (promise_then p re s) = rc_promises s"
  "rc_called (promise_then p re s) = rc_called s"
  "rc_executing (promise_then p re s) = rc_executing s"
  "rc_queue (promise_then p re s) = rc_queue s"
  "rc_results (promise_then p re s) = rc_results s"
  "rc_index (promise_then p re s) = rc_index s"
  "rc_race (promise_then p re s) = rc_race s"
  "rc_raced (promise_then p re s) = rc_raced s"
  "rc_returned (promise_then p re s) = rc_returned s"
  "length (rc_reactions (promise_then p re s)) = length (rc_reactions s)"
  by (simp_all add: promise_then_def split: promise.splits)

text \<open>A thunk that makes its own promise.\<close>

lemma spawn_Makes:
  "spawn (Makes t) s =
     promise_then (length (rc_promises s)) (Then (rc_index s))
       (s\<lparr>rc_promises := rc_promises s @ [start t], rc_reactions := rc_reactions s @ [[]],
           rc_called := rc_called s @ [length (rc_promises s)], rc_index := rc_index s + 1,
           rc_executing := set_add (length (rc_promises s)) (rc_executing s)\<rparr>)"
  by (simp add: spawn_def call_thunk_def new_promise_def)

lemma spawn_fields:
  "rc_mode (spawn (Makes t) s) = rc_mode s"
  "rc_concurrency (spawn (Makes t) s) = rc_concurrency s"
  "rc_promises (spawn (Makes t) s) = rc_promises s @ [start t]"
  "rc_called (spawn (Makes t) s) = rc_called s @ [length (rc_promises s)]"
  "rc_executing (spawn (Makes t) s) = set_add (length (rc_promises s)) (rc_executing s)"
  "rc_queue (spawn (Makes t) s) = rc_queue s"
  "rc_results (spawn (Makes t) s) = rc_results s"
  "rc_index (spawn (Makes t) s) = rc_index s + 1"
  "rc_race (spawn (Makes t) s) = rc_race s"
  "rc_raced (spawn (Makes t) s) = rc_raced s"
  "rc_returned (spawn (Makes t) s) = rc_returned s"
  "length (rc_reactions (spawn (Makes t) s)) = length (rc_reactions s) + 1"
  by (simp_all add: spawn_Makes promise_then_fields)

lemma spawn_jobs:
  "rc_jobs (spawn (Makes t) s) =
     rc_jobs s @ (case start t of
                    Fulfilled r \<Rightarrow> [Store (length (rc_promises s)) (rc_index s) r]
                  | Pending x \<Rightarrow> [])"
  by (cases "start t") (simp_all add: spawn_Makes promise_then_def)

lemma spawn_reactions:
  assumes "length (rc_reactions s) = length (rc_promises s)"
  shows "rc_reactions (spawn (Makes t) s) =
     rc_reactions s @ [case start t of Fulfilled r \<Rightarrow> [] | Pending x \<Rightarrow> [Then (rc_index s)]]"
proof (cases "start t")
  case (Fulfilled r)
  then show ?thesis by (simp add: spawn_Makes promise_then_def)
next
  case (Pending x)
  let ?n = "length (rc_promises s)"
  have "rc_reactions (spawn (Makes t) s) =
      (rc_reactions s @ [[]])[?n := (rc_reactions s @ [[]]) ! ?n @ [Then (rc_index s)]]"
    using Pending by (simp add: spawn_Makes promise_then_def)
  also have "\<dots> = rc_reactions s @ [[Then (rc_index s)]]"
    unfolding assms[symmetric] by simp
  finally show ?thesis using Pending by simp
qed

text \<open>Any thunk.\<close>

lemma spawn_any_fields:
  "rc_mode (spawn th s) = rc_mode s"
  "rc_concurrency (spawn th s) = rc_concurrency s"
  "rc_queue (spawn th s) = rc_queue s"
  "rc_results (spawn th s) = rc_results s"
  "rc_index (spawn th s) = rc_index s + 1"
  "rc_race (spawn th s) = rc_race s"
  "rc_raced (spawn th s) = rc_raced s"
  "rc_returned (spawn th s) = rc_returned s"
  by (simp_all add: spawn_def call_thunk_def new_promise_def promise_then_fields
      split: thunk.splits prod.splits)

lemma spawn_executing_mono: "set (rc_executing s) \<subseteq> set (rc_executing (spawn th s))"
  by (auto simp: spawn_def call_thunk_def new_promise_def promise_then_fields set_add_set
      split: thunk.splits prod.splits)

lemma spawn_executing_nonempty: "rc_executing (spawn th s) \<noteq> []"
  by (simp add: spawn_def call_thunk_def new_promise_def promise_then_fields set_add_nonempty
      split: thunk.splits prod.splits)

lemma fill_rule:
  assumes "P s"
    and "\<And>s th q. P s \<Longrightarrow> rc_queue s = th # q \<Longrightarrow>
           length (rc_executing s) < rc_concurrency s \<Longrightarrow> P (spawn th (s\<lparr>rc_queue := q\<rparr>))"
  shows "P (fill s)"
  using assms(1)
proof (induction s rule: fill.induct)
  case (1 s)
  show ?case
  proof (cases "length (rc_executing s) < rc_concurrency s")
    case False
    then show ?thesis using 1(2) by (subst fill.simps) simp
  next
    case True
    show ?thesis
    proof (cases "rc_queue s")
      case Nil
      then show ?thesis using 1(2) True by (subst fill.simps) simp
    next
      case (Cons th q)
      have "P (spawn th (s\<lparr>rc_queue := q\<rparr>))"
        using assms(2)[OF 1(2) Cons True] .
      then have "P (fill (spawn th (s\<lparr>rc_queue := q\<rparr>)))"
        using 1(1)[OF True Cons] by simp
      then show ?thesis using True Cons by (subst fill.simps) simp
    qed
  qed
qed

lemma fill_full:
  "rc_concurrency (fill s) \<le> length (rc_executing (fill s)) \<or> rc_queue (fill s) = []"
proof (induction s rule: fill.induct)
  case (1 s)
  show ?case
  proof (cases "length (rc_executing s) < rc_concurrency s")
    case False
    then show ?thesis by (subst (1 2 3) fill.simps) simp
  next
    case True
    show ?thesis
    proof (cases "rc_queue s")
      case Nil
      then show ?thesis using True by (subst (1 2 3) fill.simps) simp
    next
      case (Cons th q)
      then show ?thesis using True 1[OF True Cons] by (subst (1 2 3) fill.simps) simp
    qed
  qed
qed

lemma watch_fields:
  "rc_mode (watch k s p) = rc_mode s"
  "rc_concurrency (watch k s p) = rc_concurrency s"
  "rc_promises (watch k s p) = rc_promises s"
  "rc_called (watch k s p) = rc_called s"
  "rc_executing (watch k s p) = rc_executing s"
  "rc_queue (watch k s p) = rc_queue s"
  "rc_results (watch k s p) = rc_results s"
  "rc_index (watch k s p) = rc_index s"
  "rc_race (watch k s p) = rc_race s"
  "rc_raced (watch k s p) = rc_raced s"
  "rc_returned (watch k s p) = rc_returned s"
  "length (rc_reactions (watch k s p)) = length (rc_reactions s)"
  by (simp_all add: watch_def promise_then_fields)

lemma watch_jobs_cases:
  "rc_jobs (watch k s p) = rc_jobs s \<or> (\<exists>r. rc_jobs (watch k s p) = rc_jobs s @ [Win k r])"
  by (simp add: watch_def promise_then_def split: promise.splits)

lemma watch_jobs_fulfilled:
  "p < length (rc_promises s) \<Longrightarrow> rc_promises s ! p = Fulfilled r \<Longrightarrow>
     rc_jobs (watch k s p) = rc_jobs s @ [Win k r]"
  by (simp add: watch_def promise_then_def)

lemma watch_watch_mono: "set (rc_reactions s ! i) \<subseteq> set (rc_reactions (watch k s p) ! i)"
  by (cases "i = p"; cases "p < length (rc_reactions s)")
     (auto simp: watch_def promise_then_def nth_list_update list_update_beyond
        split: promise.splits)

lemma watch_watch_new:
  "p < length (rc_promises s) \<Longrightarrow> p < length (rc_reactions s) \<Longrightarrow> rc_promises s ! p = Pending x \<Longrightarrow>
     Raced k \<in> set (rc_reactions (watch k s p) ! p)"
  by (simp add: watch_def promise_then_def)

text \<open>A race registers no callback.\<close>

lemma watch_then:
  "Then i \<in> set (rc_reactions (watch k s p) ! q) \<longleftrightarrow> Then i \<in> set (rc_reactions s ! q)"
  by (cases "q = p"; cases "p < length (rc_reactions s)")
     (auto simp: watch_def promise_then_def nth_list_update list_update_beyond
        split: promise.splits)

lemma watches_keep:
  assumes "\<And>s p. f (watch k s p) = f s"
  shows "f (foldl (watch k) s xs) = f s"
  by (induction xs arbitrary: s) (simp_all add: assms)

lemma watches_fields:
  "rc_mode (foldl (watch k) s xs) = rc_mode s"
  "rc_concurrency (foldl (watch k) s xs) = rc_concurrency s"
  "rc_promises (foldl (watch k) s xs) = rc_promises s"
  "rc_called (foldl (watch k) s xs) = rc_called s"
  "rc_executing (foldl (watch k) s xs) = rc_executing s"
  "rc_queue (foldl (watch k) s xs) = rc_queue s"
  "rc_results (foldl (watch k) s xs) = rc_results s"
  "rc_index (foldl (watch k) s xs) = rc_index s"
  "rc_race (foldl (watch k) s xs) = rc_race s"
  "rc_raced (foldl (watch k) s xs) = rc_raced s"
  "rc_returned (foldl (watch k) s xs) = rc_returned s"
  "length (rc_reactions (foldl (watch k) s xs)) = length (rc_reactions s)"
  using watches_keep[of rc_mode k s xs] watches_keep[of rc_concurrency k s xs]
    watches_keep[of rc_promises k s xs] watches_keep[of rc_executing k s xs]
    watches_keep[of rc_queue k s xs] watches_keep[of rc_results k s xs]
    watches_keep[of rc_index k s xs] watches_keep[of rc_race k s xs]
    watches_keep[of rc_raced k s xs] watches_keep[of rc_returned k s xs]
    watches_keep[of "\<lambda>s. length (rc_reactions s)" k s xs]
    watches_keep[of rc_called k s xs]
  by (simp_all add: watch_fields)

lemma watches_then:
  "Then i \<in> set (rc_reactions (foldl (watch k) s xs) ! q) \<longleftrightarrow> Then i \<in> set (rc_reactions s ! q)"
  by (induction xs arbitrary: s) (simp_all add: watch_then)

lemma watches_jobs_mono: "set (rc_jobs s) \<subseteq> set (rc_jobs (foldl (watch k) s xs))"
proof (induction xs arbitrary: s)
  case Nil
  then show ?case by simp
next
  case (Cons x xs)
  have "set (rc_jobs s) \<subseteq> set (rc_jobs (watch k s x))"
    using watch_jobs_cases[of k s x] by auto
  then show ?case using Cons[of "watch k s x"] by auto
qed

lemma watches_watch_mono:
  "set (rc_reactions s ! i) \<subseteq> set (rc_reactions (foldl (watch k) s xs) ! i)"
proof (induction xs arbitrary: s)
  case Nil
  then show ?case by simp
next
  case (Cons x xs)
  show ?case using Cons[of "watch k s x"] watch_watch_mono[of s i k x] by auto
qed

text \<open>Jobs queued by a race are its own resolve jobs.\<close>

lemma watches_jobs_new:
  "j \<in> set (rc_jobs (foldl (watch k) s xs)) \<Longrightarrow> j \<in> set (rc_jobs s) \<or> (\<exists>r. j = Win k r)"
proof (induction xs arbitrary: s)
  case Nil
  then show ?case by simp
next
  case (Cons x xs)
  from Cons.IH[of "watch k s x"] Cons.prems
  have "j \<in> set (rc_jobs (watch k s x)) \<or> (\<exists>r. j = Win k r)" by simp
  then show ?case
    using watch_jobs_cases[of k s x] by auto
qed

lemma watches_cover:
  assumes "i \<in> set xs" and "i < length (rc_promises s)"
    and "length (rc_reactions s) = length (rc_promises s)"
  shows "(\<forall>x. rc_promises s ! i = Pending x \<longrightarrow>
            Raced k \<in> set (rc_reactions (foldl (watch k) s xs) ! i)) \<and>
         (\<forall>r. rc_promises s ! i = Fulfilled r \<longrightarrow> Win k r \<in> set (rc_jobs (foldl (watch k) s xs)))"
  using assms
proof (induction xs arbitrary: s)
  case Nil
  then show ?case by simp
next
  case (Cons y xs)
  let ?s1 = "watch k s y"
  show ?case
  proof (cases "i = y")
    case True
    have a: "\<forall>x. rc_promises s ! i = Pending x \<longrightarrow> Raced k \<in> set (rc_reactions ?s1 ! i)"
      using True Cons.prems(2,3) by (simp add: watch_watch_new)
    have b: "\<forall>r. rc_promises s ! i = Fulfilled r \<longrightarrow> Win k r \<in> set (rc_jobs ?s1)"
      using True Cons.prems(2) by (simp add: watch_jobs_fulfilled)
    show ?thesis
      using a b watches_watch_mono[of ?s1 i k xs] watches_jobs_mono[of ?s1 k xs]
      by auto
  next
    case False
    then have "i \<in> set xs" using Cons.prems(1) by simp
    then show ?thesis
      using Cons.IH[of ?s1] Cons.prems(2,3) by (simp add: watch_fields)
  qed
qed

lemma enter_race_fields:
  "rc_mode (enter_race s) = rc_mode s"
  "rc_concurrency (enter_race s) = rc_concurrency s"
  "rc_promises (enter_race s) = rc_promises s"
  "rc_called (enter_race s) = rc_called s"
  "rc_executing (enter_race s) = rc_executing s"
  "rc_queue (enter_race s) = rc_queue s"
  "rc_results (enter_race s) = rc_results s"
  "rc_index (enter_race s) = rc_index s"
  "rc_race (enter_race s) = rc_race s + 1"
  "rc_raced (enter_race s) = False"
  "rc_returned (enter_race s) = rc_returned s"
  "length (rc_reactions (enter_race s)) = length (rc_reactions s)"
  by (simp_all add: enter_race_def watches_fields)

lemma enter_race_then:
  "Then i \<in> set (rc_reactions (enter_race s) ! q) \<longleftrightarrow> Then i \<in> set (rc_reactions s ! q)"
  by (simp add: enter_race_def watches_then)

lemma enter_race_jobs_mono: "set (rc_jobs s) \<subseteq> set (rc_jobs (enter_race s))"
  using watches_jobs_mono[of "s\<lparr>rc_race := rc_race s + 1, rc_raced := False\<rparr>"]
  by (simp add: enter_race_def)

lemma enter_race_jobs_new:
  "j \<in> set (rc_jobs (enter_race s)) \<Longrightarrow> j \<in> set (rc_jobs s) \<or> (\<exists>r. j = Win (rc_race s + 1) r)"
  using watches_jobs_new[of j "rc_race s + 1" "s\<lparr>rc_race := rc_race s + 1, rc_raced := False\<rparr>"]
  by (simp add: enter_race_def)

lemma enter_race_cover:
  assumes "i \<in> set (rc_executing s)" and "i < length (rc_promises s)"
    and "length (rc_reactions s) = length (rc_promises s)"
  shows "(\<forall>x. rc_promises s ! i = Pending x \<longrightarrow>
            Raced (rc_race s + 1) \<in> set (rc_reactions (enter_race s) ! i)) \<and>
         (\<forall>r. rc_promises s ! i = Fulfilled r \<longrightarrow> Win (rc_race s + 1) r \<in> set (rc_jobs (enter_race s)))"
  using watches_cover[of i "rc_executing s" "s\<lparr>rc_race := rc_race s + 1, rc_raced := False\<rparr>" "rc_race s + 1"]
    assms
  by (simp add: enter_race_def)

subsection \<open>The shape of the state is kept\<close>

lemma race_shapeI:
  assumes "rc_index s = length (rc_promises s)"
    and "rc_called s = [0..<length (rc_promises s)]"
    and "\<And>th. th \<in> set (rc_queue s) \<Longrightarrow> own th"
    and "length (rc_reactions s) = length (rc_promises s)"
    and "distinct (rc_executing s)"
    and "length (rc_executing s) \<le> rc_concurrency s"
    and "\<And>i. i \<in> set (rc_executing s) \<Longrightarrow> i < length (rc_promises s)"
    and "\<And>i. i < length (rc_promises s) \<Longrightarrow> is_pending (rc_promises s ! i) \<Longrightarrow>
           i \<in> set (rc_executing s)"
    and "\<And>p i r. Store p i r \<in> set (rc_jobs s) \<Longrightarrow>
           p = i \<and> i < length (rc_promises s) \<and> rc_promises s ! i = Fulfilled r"
    and "\<And>i r. i \<in> set (rc_executing s) \<Longrightarrow> rc_promises s ! i = Fulfilled r \<Longrightarrow>
           Store i i r \<in> set (rc_jobs s)"
    and "\<And>p i. p < length (rc_promises s) \<Longrightarrow> Then i \<in> set (rc_reactions s ! p) \<Longrightarrow> i = p"
    and "\<And>p. p < length (rc_promises s) \<Longrightarrow> is_pending (rc_promises s ! p) \<Longrightarrow>
           Then p \<in> set (rc_reactions s ! p)"
  shows "race_shape s"
  unfolding race_shape_def using assms by blast

lemma race_shape_index: "race_shape s \<Longrightarrow> rc_index s = length (rc_promises s)"
  unfolding race_shape_def by blast

lemma race_shape_called: "race_shape s \<Longrightarrow> rc_called s = [0..<length (rc_promises s)]"
  unfolding race_shape_def by blast

lemma race_shape_own: "race_shape s \<Longrightarrow> th \<in> set (rc_queue s) \<Longrightarrow> own th"
  unfolding race_shape_def by blast

lemma race_shape_watch: "race_shape s \<Longrightarrow> length (rc_reactions s) = length (rc_promises s)"
  unfolding race_shape_def by blast

lemma race_shape_distinct: "race_shape s \<Longrightarrow> distinct (rc_executing s)"
  unfolding race_shape_def by blast

lemma race_shape_bound: "race_shape s \<Longrightarrow> length (rc_executing s) \<le> rc_concurrency s"
  unfolding race_shape_def by blast

lemma race_shape_member:
  "race_shape s \<Longrightarrow> i \<in> set (rc_executing s) \<Longrightarrow> i < length (rc_promises s)"
  unfolding race_shape_def by blast

lemma race_shape_pending:
  "race_shape s \<Longrightarrow> i < length (rc_promises s) \<Longrightarrow> is_pending (rc_promises s ! i) \<Longrightarrow>
     i \<in> set (rc_executing s)"
  unfolding race_shape_def by blast

lemma race_shape_store:
  "race_shape s \<Longrightarrow> Store p i r \<in> set (rc_jobs s) \<Longrightarrow>
     p = i \<and> i < length (rc_promises s) \<and> rc_promises s ! i = Fulfilled r"
  unfolding race_shape_def by blast

lemma race_shape_queued:
  "race_shape s \<Longrightarrow> i \<in> set (rc_executing s) \<Longrightarrow> rc_promises s ! i = Fulfilled r \<Longrightarrow>
     Store i i r \<in> set (rc_jobs s)"
  unfolding race_shape_def by blast

lemma race_shape_then_only:
  "race_shape s \<Longrightarrow> p < length (rc_promises s) \<Longrightarrow> Then i \<in> set (rc_reactions s ! p) \<Longrightarrow> i = p"
  unfolding race_shape_def by blast

lemma race_shape_then_own:
  "race_shape s \<Longrightarrow> p < length (rc_promises s) \<Longrightarrow> is_pending (rc_promises s ! p) \<Longrightarrow>
     Then p \<in> set (rc_reactions s ! p)"
  unfolding race_shape_def by blast

lemma own_Makes: "own th \<Longrightarrow> \<exists>t. th = Makes t"
  by (cases th) simp_all

lemma race_shape_spawn:
  assumes "race_shape s" and "rc_queue s = th # q"
    and "length (rc_executing s) < rc_concurrency s"
  shows "race_shape (spawn th (s\<lparr>rc_queue := q\<rparr>))"
proof -
  have "own th" using race_shape_own[OF assms(1), of th] assms(2) by simp
  then obtain t where th: "th = Makes t" using own_Makes by blast
  let ?s = "spawn (Makes t) (s\<lparr>rc_queue := q\<rparr>)"
  let ?n = "length (rc_promises s)"
  have idx: "rc_index s = ?n" by (rule race_shape_index[OF assms(1)])
  have len: "length (rc_reactions s) = ?n" by (rule race_shape_watch[OF assms(1)])
  have fresh: "?n \<notin> set (rc_executing s)"
    using race_shape_member[OF assms(1), of ?n] by auto
  have ex: "rc_executing ?s = rc_executing s @ [?n]"
    using fresh by (simp add: spawn_fields set_add_new)
  have re: "rc_reactions ?s =
      rc_reactions s @ [case start t of Fulfilled r \<Rightarrow> [] | Pending x \<Rightarrow> [Then ?n]]"
    using spawn_reactions[of "s\<lparr>rc_queue := q\<rparr>" t] len idx by (cases "start t") simp_all
  have jobs: "rc_jobs ?s =
      rc_jobs s @ (case start t of Fulfilled r \<Rightarrow> [Store ?n ?n r] | Pending x \<Rightarrow> [])"
    using spawn_jobs[of t "s\<lparr>rc_queue := q\<rparr>"] idx by (cases "start t") simp_all
  have at_n: "rc_reactions ?s ! ?n =
      (case start t of Fulfilled r \<Rightarrow> [] | Pending x \<Rightarrow> [Then ?n])"
    unfolding re len[symmetric] by simp
  have below: "rc_reactions ?s ! p = rc_reactions s ! p" if "p < ?n" for p
    unfolding re using that len by (simp add: nth_append)
  have "race_shape ?s"
  proof (rule race_shapeI)
    show "rc_index ?s = length (rc_promises ?s)"
      using idx by (simp add: spawn_fields)
    show "rc_called ?s = [0..<length (rc_promises ?s)]"
      using race_shape_called[OF assms(1)] by (simp add: spawn_fields)
    show "own th'" if "th' \<in> set (rc_queue ?s)" for th'
      using that race_shape_own[OF assms(1), of th'] assms(2) by (simp add: spawn_fields)
    show "length (rc_reactions ?s) = length (rc_promises ?s)"
      using len by (simp add: spawn_fields)
    show "distinct (rc_executing ?s)"
      using race_shape_distinct[OF assms(1)] fresh unfolding ex by simp
    show "length (rc_executing ?s) \<le> rc_concurrency ?s"
      using assms(3) unfolding ex by (simp add: spawn_fields)
    show "i < length (rc_promises ?s)" if "i \<in> set (rc_executing ?s)" for i
      using that race_shape_member[OF assms(1), of i] unfolding ex
      by (auto simp: spawn_fields)
    show "i \<in> set (rc_executing ?s)"
      if "i < length (rc_promises ?s)" "is_pending (rc_promises ?s ! i)" for i
    proof (cases "i < ?n")
      case True
      then show ?thesis
        using that race_shape_pending[OF assms(1), of i] unfolding ex
        by (simp add: spawn_fields nth_append)
    next
      case False
      then have "i = ?n" using that(1) by (simp add: spawn_fields)
      then show ?thesis unfolding ex by simp
    qed
    show "p = i \<and> i < length (rc_promises ?s) \<and> rc_promises ?s ! i = Fulfilled r"
      if "Store p i r \<in> set (rc_jobs ?s)" for p i r
    proof (cases "Store p i r \<in> set (rc_jobs s)")
      case True
      then show ?thesis
        using race_shape_store[OF assms(1), of p i r] by (simp add: spawn_fields nth_append)
    next
      case False
      then have "start t = Fulfilled r \<and> p = ?n \<and> i = ?n"
        using that unfolding jobs by (cases "start t") simp_all
      then show ?thesis by (simp add: spawn_fields)
    qed
    show "Store i i r \<in> set (rc_jobs ?s)"
      if "i \<in> set (rc_executing ?s)" "rc_promises ?s ! i = Fulfilled r" for i r
    proof (cases "i \<in> set (rc_executing s)")
      case True
      then have "i < ?n" by (rule race_shape_member[OF assms(1)])
      then show ?thesis
        using that(2) True race_shape_queued[OF assms(1), of i r] unfolding jobs
        by (simp add: spawn_fields nth_append)
    next
      case False
      then have "i = ?n" using that(1) unfolding ex by simp
      then show ?thesis using that(2) unfolding jobs by (simp add: spawn_fields)
    qed
    show "i = p" if "p < length (rc_promises ?s)" "Then i \<in> set (rc_reactions ?s ! p)" for p i
    proof (cases "p < ?n")
      case True
      then show ?thesis
        using that(2) race_shape_then_only[OF assms(1) True, of i] by (simp add: below)
    next
      case False
      then have "p = ?n" using that(1) by (simp add: spawn_fields)
      then show ?thesis
        using that(2) by (cases "start t") (simp_all add: at_n)
    qed
    show "Then p \<in> set (rc_reactions ?s ! p)"
      if "p < length (rc_promises ?s)" "is_pending (rc_promises ?s ! p)" for p
    proof (cases "p < ?n")
      case True
      then show ?thesis
        using that(2) race_shape_then_own[OF assms(1) True]
        by (simp add: spawn_fields nth_append below)
    next
      case False
      then have "p = ?n" using that(1) by (simp add: spawn_fields)
      then show ?thesis
        using that(2) by (cases "start t") (simp_all add: spawn_fields at_n)
    qed
  qed
  then show ?thesis unfolding th .
qed

lemma race_shape_fill: "race_shape s \<Longrightarrow> race_shape (fill s)"
  by (rule fill_rule[where P = race_shape]) (simp_all add: race_shape_spawn)

lemma race_shape_enter_race:
  assumes "race_shape s"
  shows "race_shape (enter_race s)"
proof (rule race_shapeI)
  let ?s = "enter_race s"
  show "rc_index ?s = length (rc_promises ?s)"
    using race_shape_index[OF assms] by (simp add: enter_race_fields)
  show "rc_called ?s = [0..<length (rc_promises ?s)]"
    using race_shape_called[OF assms] by (simp add: enter_race_fields)
  show "own th" if "th \<in> set (rc_queue ?s)" for th
    using that race_shape_own[OF assms, of th] by (simp add: enter_race_fields)
  show "length (rc_reactions ?s) = length (rc_promises ?s)"
    using race_shape_watch[OF assms] by (simp add: enter_race_fields)
  show "distinct (rc_executing ?s)"
    using race_shape_distinct[OF assms] by (simp add: enter_race_fields)
  show "length (rc_executing ?s) \<le> rc_concurrency ?s"
    using race_shape_bound[OF assms] by (simp add: enter_race_fields)
  show "i < length (rc_promises ?s)" if "i \<in> set (rc_executing ?s)" for i
    using that race_shape_member[OF assms, of i] by (simp add: enter_race_fields)
  show "i \<in> set (rc_executing ?s)"
    if "i < length (rc_promises ?s)" "is_pending (rc_promises ?s ! i)" for i
    using that race_shape_pending[OF assms, of i] by (simp add: enter_race_fields)
  show "p = i \<and> i < length (rc_promises ?s) \<and> rc_promises ?s ! i = Fulfilled r"
    if "Store p i r \<in> set (rc_jobs ?s)" for p i r
    using enter_race_jobs_new[OF that] race_shape_store[OF assms, of p i r]
    by (auto simp: enter_race_fields)
  show "Store i i r \<in> set (rc_jobs ?s)"
    if "i \<in> set (rc_executing ?s)" "rc_promises ?s ! i = Fulfilled r" for i r
    using that race_shape_queued[OF assms, of i r] enter_race_jobs_mono[of s]
    by (auto simp: enter_race_fields)
  show "i = p" if "p < length (rc_promises ?s)" "Then i \<in> set (rc_reactions ?s ! p)" for p i
    using that race_shape_then_only[OF assms, of p i] by (simp add: enter_race_fields enter_race_then)
  show "Then p \<in> set (rc_reactions ?s ! p)"
    if "p < length (rc_promises ?s)" "is_pending (rc_promises ?s ! p)" for p
    using that race_shape_then_own[OF assms, of p] by (simp add: enter_race_fields enter_race_then)
qed

lemma race_shape_loop_body: "race_shape s \<Longrightarrow> race_shape (loop_body s)"
  by (simp add: loop_body_def race_shape_fill race_shape_enter_race)


lemma race_settle_cases:
  obtains (idle) "race_settle p s = s"
  | (fulfil) r where "p < length (rc_promises s)" "rc_promises s ! p = Pending (Some r)"
      "race_settle p s =
         s\<lparr>rc_promises := (rc_promises s)[p := Fulfilled r],
           rc_jobs := rc_jobs s @ map (fire p r) (rc_reactions s ! p)\<rparr>"
proof (cases "p < length (rc_promises s)")
  case False
  then show ?thesis using idle by (simp add: race_settle_def)
next
  case True
  show ?thesis
  proof (cases "rc_promises s ! p")
    case (Fulfilled r)
    then show ?thesis using idle True by (simp add: race_settle_def)
  next
    case (Pending x)
    show ?thesis
    proof (cases x)
      case None
      then show ?thesis using idle True Pending by (simp add: race_settle_def)
    next
      case (Some r)
      then show ?thesis using fulfil[of r] True Pending by (simp add: race_settle_def)
    qed
  qed
qed

lemma race_shape_settle:
  assumes "race_shape s"
  shows "race_shape (race_settle p s)"
proof (cases p s rule: race_settle_cases)
  case idle
  then show ?thesis using assms by simp
next
  case (fulfil r)
  let ?s = "s\<lparr>rc_promises := (rc_promises s)[p := Fulfilled r],
           rc_jobs := rc_jobs s @ map (fire p r) (rc_reactions s ! p)\<rparr>"
  have own_cb: "Then p \<in> set (rc_reactions s ! p)"
    using race_shape_then_own[OF assms fulfil(1)] fulfil(2) by simp
  have "race_shape ?s"
  proof (rule race_shapeI)
    show "rc_index ?s = length (rc_promises ?s)"
      using race_shape_index[OF assms] by simp
    show "rc_called ?s = [0..<length (rc_promises ?s)]"
      using race_shape_called[OF assms] by simp
    show "own th" if "th \<in> set (rc_queue ?s)" for th
      using that race_shape_own[OF assms, of th] by simp
    show "length (rc_reactions ?s) = length (rc_promises ?s)"
      using race_shape_watch[OF assms] by simp
    show "distinct (rc_executing ?s)"
      using race_shape_distinct[OF assms] by simp
    show "length (rc_executing ?s) \<le> rc_concurrency ?s"
      using race_shape_bound[OF assms] by simp
    show "i < length (rc_promises ?s)" if "i \<in> set (rc_executing ?s)" for i
      using that race_shape_member[OF assms, of i] by simp
    show "i \<in> set (rc_executing ?s)"
      if "i < length (rc_promises ?s)" "is_pending (rc_promises ?s ! i)" for i
    proof -
      have "i \<noteq> p" using that fulfil(1) by auto
      then show ?thesis using that race_shape_pending[OF assms, of i] by simp
    qed
    show "q = i \<and> i < length (rc_promises ?s) \<and> rc_promises ?s ! i = Fulfilled r'"
      if "Store q i r' \<in> set (rc_jobs ?s)" for q i r'
    proof (cases "Store q i r' \<in> set (rc_jobs s)")
      case True
      then have a: "q = i \<and> i < length (rc_promises s) \<and> rc_promises s ! i = Fulfilled r'"
        by (rule race_shape_store[OF assms])
      then have "i \<noteq> p" using fulfil(2) by auto
      then show ?thesis using a by simp
    next
      case False
      then have "Store q i r' \<in> set (map (fire p r) (rc_reactions s ! p))"
        using that by simp
      then have b: "q = p \<and> r' = r \<and> Then i \<in> set (rc_reactions s ! p)"
        by (simp only: fire_Store)
      then have "i = p" using race_shape_then_only[OF assms fulfil(1), of i] by simp
      then show ?thesis using b fulfil(1) by simp
    qed
    show "Store i i r' \<in> set (rc_jobs ?s)"
      if "i \<in> set (rc_executing ?s)" "rc_promises ?s ! i = Fulfilled r'" for i r'
    proof (cases "i = p")
      case True
      then have "r' = r" using that(2) fulfil(1) by simp
      then have "Store i i r' \<in> set (map (fire p r) (rc_reactions s ! p))"
        using own_cb True by (simp only: fire_Store)
      then show ?thesis by simp
    next
      case False
      then show ?thesis using that race_shape_queued[OF assms, of i r'] by simp
    qed
    show "i = q" if "q < length (rc_promises ?s)" "Then i \<in> set (rc_reactions ?s ! q)" for q i
      using that race_shape_then_only[OF assms, of q i] by simp
    show "Then q \<in> set (rc_reactions ?s ! q)"
      if "q < length (rc_promises ?s)" "is_pending (rc_promises ?s ! q)" for q
    proof -
      have "q \<noteq> p" using that fulfil(1) by auto
      then show ?thesis using that race_shape_then_own[OF assms, of q] by simp
    qed
  qed
  then show ?thesis using fulfil(3) by simp
qed

lemma race_store_fields:
  "rc_mode (race_store p i r s) = rc_mode s"
  "rc_concurrency (race_store p i r s) = rc_concurrency s"
  "rc_promises (race_store p i r s) = rc_promises s"
  "rc_reactions (race_store p i r s) = rc_reactions s"
  "rc_called (race_store p i r s) = rc_called s"
  "rc_executing (race_store p i r s) = removeAll p (rc_executing s)"
  "rc_queue (race_store p i r s) = rc_queue s"
  "rc_index (race_store p i r s) = rc_index s"
  "rc_race (race_store p i r s) = rc_race s"
  "rc_raced (race_store p i r s) = rc_raced s"
  "rc_jobs (race_store p i r s) = rc_jobs s"
  "rc_returned (race_store p i r s) = rc_returned s"
  by (simp_all add: race_store_def Let_def split: result.splits)


lemma race_shape_store_job:
  assumes "race_shape s" and "rc_jobs s = Store p i r # js"
  shows "race_shape (race_store p i r (s\<lparr>rc_jobs := js\<rparr>))"
proof (rule race_shapeI)
  let ?s = "race_store p i r (s\<lparr>rc_jobs := js\<rparr>)"
  have f: "p = i \<and> i < length (rc_promises s) \<and> rc_promises s ! i = Fulfilled r"
    using race_shape_store[OF assms(1), of p i r] assms(2) by simp
  show "rc_index ?s = length (rc_promises ?s)"
    using race_shape_index[OF assms(1)] by (simp add: race_store_fields)
  show "rc_called ?s = [0..<length (rc_promises ?s)]"
    using race_shape_called[OF assms(1)] by (simp add: race_store_fields)
  show "own th" if "th \<in> set (rc_queue ?s)" for th
    using that race_shape_own[OF assms(1), of th] by (simp add: race_store_fields)
  show "length (rc_reactions ?s) = length (rc_promises ?s)"
    using race_shape_watch[OF assms(1)] by (simp add: race_store_fields)
  show "distinct (rc_executing ?s)"
    using race_shape_distinct[OF assms(1)] by (simp add: race_store_fields distinct_removeAll)
  have "length (removeAll p (rc_executing s)) \<le> length (rc_executing s)"
    by (rule length_removeAll_less_eq)
  moreover have "rc_executing ?s = removeAll p (rc_executing s)"
    and "rc_concurrency ?s = rc_concurrency s"
    by (simp_all add: race_store_fields)
  ultimately show "length (rc_executing ?s) \<le> rc_concurrency ?s"
    using race_shape_bound[OF assms(1)] by (metis le_trans)
  show "k < length (rc_promises ?s)" if "k \<in> set (rc_executing ?s)" for k
    using that race_shape_member[OF assms(1), of k] by (simp add: race_store_fields)
  show "k \<in> set (rc_executing ?s)"
    if "k < length (rc_promises ?s)" "is_pending (rc_promises ?s ! k)" for k
  proof -
    have "k \<noteq> p" using that f by (auto simp: race_store_fields)
    then show ?thesis
      using that race_shape_pending[OF assms(1), of k] by (simp add: race_store_fields)
  qed
  show "q = k \<and> k < length (rc_promises ?s) \<and> rc_promises ?s ! k = Fulfilled r'"
    if "Store q k r' \<in> set (rc_jobs ?s)" for q k r'
    using that race_shape_store[OF assms(1), of q k r'] assms(2) by (simp add: race_store_fields)
  show "Store k k r' \<in> set (rc_jobs ?s)"
    if "k \<in> set (rc_executing ?s)" "rc_promises ?s ! k = Fulfilled r'" for k r'
    using that race_shape_queued[OF assms(1), of k r'] assms(2) f by (auto simp: race_store_fields)
  show "k = q" if "q < length (rc_promises ?s)" "Then k \<in> set (rc_reactions ?s ! q)" for q k
    using that race_shape_then_only[OF assms(1), of q k] by (simp add: race_store_fields)
  show "Then q \<in> set (rc_reactions ?s ! q)"
    if "q < length (rc_promises ?s)" "is_pending (rc_promises ?s ! q)" for q
    using that race_shape_then_own[OF assms(1), of q] by (simp add: race_store_fields)
qed

text \<open>A change of the job queue that keeps the callbacks, and of fields the shape ignores.\<close>

lemma race_shape_same:
  assumes "race_shape s"
    and "rc_index t = rc_index s" "rc_promises t = rc_promises s"
    and "rc_reactions t = rc_reactions s"
    and "rc_executing t = rc_executing s" "rc_concurrency t = rc_concurrency s"
    and "\<And>p i r. Store p i r \<in> set (rc_jobs t) \<longleftrightarrow> Store p i r \<in> set (rc_jobs s)"
    and "rc_called t = rc_called s" "rc_queue t = rc_queue s"
  shows "race_shape t"
proof (rule race_shapeI)
  show "rc_index t = length (rc_promises t)"
    unfolding assms(2,3) by (rule race_shape_index[OF assms(1)])
  show "rc_called t = [0..<length (rc_promises t)]"
    unfolding assms(3,8) by (rule race_shape_called[OF assms(1)])
  show "own th" if "th \<in> set (rc_queue t)" for th
    using that unfolding assms(9) by (rule race_shape_own[OF assms(1)])
  show "length (rc_reactions t) = length (rc_promises t)"
    unfolding assms(3,4) by (rule race_shape_watch[OF assms(1)])
  show "distinct (rc_executing t)"
    unfolding assms(5) by (rule race_shape_distinct[OF assms(1)])
  show "length (rc_executing t) \<le> rc_concurrency t"
    unfolding assms(5,6) by (rule race_shape_bound[OF assms(1)])
  show "i < length (rc_promises t)" if "i \<in> set (rc_executing t)" for i
    using that unfolding assms(3,5) by (rule race_shape_member[OF assms(1)])
  show "i \<in> set (rc_executing t)"
    if "i < length (rc_promises t)" "is_pending (rc_promises t ! i)" for i
    using that unfolding assms(3,5) by (rule race_shape_pending[OF assms(1)])
  show "p = i \<and> i < length (rc_promises t) \<and> rc_promises t ! i = Fulfilled r"
    if "Store p i r \<in> set (rc_jobs t)" for p i r
    using that unfolding assms(3,7) by (rule race_shape_store[OF assms(1)])
  show "Store i i r \<in> set (rc_jobs t)"
    if "i \<in> set (rc_executing t)" "rc_promises t ! i = Fulfilled r" for i r
    using that unfolding assms(3,5,7) by (rule race_shape_queued[OF assms(1)])
  show "i = p" if "p < length (rc_promises t)" "Then i \<in> set (rc_reactions t ! p)" for p i
    using that unfolding assms(3,4) by (rule race_shape_then_only[OF assms(1)])
  show "Then p \<in> set (rc_reactions t ! p)"
    if "p < length (rc_promises t)" "is_pending (rc_promises t ! p)" for p
    using that unfolding assms(3,4) by (rule race_shape_then_own[OF assms(1)])
qed

lemma race_win_fields:
  "rc_mode (race_win k r s) = rc_mode s"
  "rc_concurrency (race_win k r s) = rc_concurrency s"
  "rc_promises (race_win k r s) = rc_promises s"
  "rc_reactions (race_win k r s) = rc_reactions s"
  "rc_called (race_win k r s) = rc_called s"
  "rc_executing (race_win k r s) = rc_executing s"
  "rc_queue (race_win k r s) = rc_queue s"
  "rc_results (race_win k r s) = rc_results s"
  "rc_index (race_win k r s) = rc_index s"
  "rc_race (race_win k r s) = rc_race s"
  "rc_returned (race_win k r s) = rc_returned s"
  "rc_raced (race_win k r s) = (rc_raced s \<or> k = rc_race s)"
  "rc_jobs (race_win k r s) =
     (if k = rc_race s \<and> \<not> rc_raced s then rc_jobs s @ [Resume r] else rc_jobs s)"
  by (auto simp: race_win_def)

lemma race_shape_win_job:
  assumes "race_shape s" and "rc_jobs s = Win k r # js"
  shows "race_shape (race_win k r (s\<lparr>rc_jobs := js\<rparr>))"
proof (rule race_shape_same[OF assms(1)])
  show "Store p i r' \<in> set (rc_jobs (race_win k r (s\<lparr>rc_jobs := js\<rparr>))) \<longleftrightarrow>
      Store p i r' \<in> set (rc_jobs s)" for p i r'
    unfolding assms(2) by (simp add: race_win_fields)
qed (simp_all add: race_win_fields)

lemma race_shape_pop:
  assumes "race_shape s" and "rc_jobs s = Resume w # js"
  shows "race_shape (s\<lparr>rc_jobs := js\<rparr>)"
proof (rule race_shape_same[OF assms(1)])
  show "Store p i r' \<in> set (rc_jobs (s\<lparr>rc_jobs := js\<rparr>)) \<longleftrightarrow> Store p i r' \<in> set (rc_jobs s)"
    for p i r'
    unfolding assms(2) by simp
qed simp_all

lemma race_resume_err:
  "rc_mode s = Default \<Longrightarrow>
     race_resume (Err e) s = s\<lparr>rc_returned := resolve (Res (Err e)) (rc_returned s)\<rparr>"
  by (simp add: race_resume_def)

lemma race_resume_loop:
  assumes "isOk w \<or> rc_mode s = Settled" and "rc_executing s \<noteq> [] \<or> rc_queue s \<noteq> []"
  shows "race_resume w s = loop_body s"
  using assms by (cases w; cases "rc_mode s") (simp_all add: race_resume_def)

lemma race_resume_exit:
  assumes "isOk w \<or> rc_mode s = Settled" and "rc_executing s = []" and "rc_queue s = []"
  shows "race_resume w s =
     s\<lparr>rc_returned := resolve (if rc_mode s = Settled then Arr (rc_results s)
                                else Res (Ok (rc_results s))) (rc_returned s)\<rparr>"
proof -
  have e: "\<not> (length (rc_executing s) > 0 \<or> length (rc_queue s) > 0)"
    using assms(2,3) by simp
  show ?thesis
  proof (cases "rc_mode s")
    case Default
    then obtain v where "w = Ok v" using assms(1) by (cases w) simp_all
    then show ?thesis
      unfolding race_resume_def using Default e by (simp only: prod.case result.case mode.case if_False mode.distinct)
  next
    case Settled
    then show ?thesis
      unfolding race_resume_def using e
      by (cases w) (simp_all only: prod.case result.case mode.case if_False if_True simp_thms)
  qed
qed

lemma race_resume_cases:
  obtains (returns) a where "race_resume w s = s\<lparr>rc_returned := resolve a (rc_returned s)\<rparr>"
  | (loops) "race_resume w s = loop_body s"
proof (cases "isOk w \<or> rc_mode s = Settled")
  case False
  then obtain e where w: "w = Err e" and m: "rc_mode s = Default"
    by (cases w; cases "rc_mode s") simp_all
  show ?thesis
    by (rule returns[of "Res (Err e)"]) (simp only: w race_resume_err[OF m])
next
  case True
  show ?thesis
  proof (cases "rc_executing s \<noteq> [] \<or> rc_queue s \<noteq> []")
    case c: True
    show ?thesis by (rule loops) (rule race_resume_loop[OF True c])
  next
    case False
    then have e: "rc_executing s = []" and q: "rc_queue s = []" by simp_all
    show ?thesis by (rule returns) (rule race_resume_exit[OF True e q])
  qed
qed

lemma race_shape_resume_job:
  assumes "race_shape s" and "rc_jobs s = Resume w # js"
  shows "race_shape (race_resume w (s\<lparr>rc_jobs := js\<rparr>))"
proof (cases w "s\<lparr>rc_jobs := js\<rparr>" rule: race_resume_cases)
  case (returns a)
  show ?thesis
    unfolding returns
    by (rule race_shape_same[OF race_shape_pop[OF assms]]) simp_all
next
  case loops
  show ?thesis
    unfolding loops by (rule race_shape_loop_body[OF race_shape_pop[OF assms]])
qed

lemma race_shape_tick:
  assumes "race_shape s"
  shows "race_shape (race_tick s)"
proof (cases "rc_jobs s")
  case Nil
  then show ?thesis using assms by (simp add: race_tick_def)
next
  case (Cons j js)
  show ?thesis
  proof (cases j)
    case (Store p i r)
    then show ?thesis
      using race_shape_store_job[OF assms, of p i r js] Cons by (simp add: race_tick_def)
  next
    case (Win k r)
    then show ?thesis
      using race_shape_win_job[OF assms, of k r js] Cons by (simp add: race_tick_def)
  next
    case (Resume w)
    then show ?thesis
      using race_shape_resume_job[OF assms, of w js] Cons by (simp add: race_tick_def)
  qed
qed

lemma race_shape_step: "race_shape s \<Longrightarrow> race_shape (race_step s ev)"
  by (cases ev) (simp_all add: race_shape_settle race_shape_tick)

lemma race_shape_run: "race_shape s \<Longrightarrow> race_shape (foldl race_step s evs)"
  by (induction evs arbitrary: s) (simp_all add: race_shape_step)

lemma race_shape_init:
  assumes "\<And>th. th \<in> set ths \<Longrightarrow> own th"
  shows "race_shape (race_init ths m k)"
  unfolding race_init_def
proof (rule race_shape_loop_body, rule race_shapeI)
qed (simp_all add: assms)

subsection \<open>At most \<open>concurrency\<close> operations are in flight\<close>

lemma in_flight_card: "in_flight ps = card {i. i < length ps \<and> is_pending (ps ! i)}"
  unfolding in_flight_def by (rule length_filter_conv_card)

lemma race_in_flight_le:
  assumes "race_shape s"
  shows "in_flight (rc_promises s) \<le> length (rc_executing s)"
proof -
  have "{i. i < length (rc_promises s) \<and> is_pending (rc_promises s ! i)} \<subseteq> set (rc_executing s)"
    using race_shape_pending[OF assms] by blast
  then have "card {i. i < length (rc_promises s) \<and> is_pending (rc_promises s ! i)}
      \<le> card (set (rc_executing s))"
    by (rule card_mono[OF finite_set])
  then show ?thesis
    using distinct_card[OF race_shape_distinct[OF assms]] by (simp add: in_flight_card)
qed

lemma race_in_flight_bound:
  "race_shape s \<Longrightarrow> in_flight (rc_promises s) \<le> rc_concurrency s"
  using race_in_flight_le[of s] race_shape_bound[of s] by simp

text \<open>With no callback queued, the executing promises are exactly the pending ones.\<close>

lemma race_in_flight_idle:
  assumes "race_shape s" and "\<forall>p i r. Store p i r \<notin> set (rc_jobs s)"
  shows "in_flight (rc_promises s) = length (rc_executing s)"
proof -
  have "i < length (rc_promises s) \<and> is_pending (rc_promises s ! i)"
    if "i \<in> set (rc_executing s)" for i
  proof -
    have "\<not> (\<exists>r. rc_promises s ! i = Fulfilled r)"
      using race_shape_queued[OF assms(1) that] assms(2) by blast
    then have "is_pending (rc_promises s ! i)"
      by (cases "rc_promises s ! i") simp_all
    then show ?thesis using race_shape_member[OF assms(1) that] by simp
  qed
  then have "{i. i < length (rc_promises s) \<and> is_pending (rc_promises s ! i)} = set (rc_executing s)"
    using race_shape_pending[OF assms(1)] by blast
  then show ?thesis
    using distinct_card[OF race_shape_distinct[OF assms(1)]] by (simp add: in_flight_card)
qed

subsection \<open>The loop keeps going\<close>

lemma race_liveI:
  assumes "rc_returned s = None \<Longrightarrow> rc_raced s \<Longrightarrow> \<exists>w. Resume w \<in> set (rc_jobs s)"
    and "\<not> rc_raced s \<Longrightarrow>
           (\<exists>r. Win (rc_race s) r \<in> set (rc_jobs s)) \<or>
           (rc_executing s \<noteq> [] \<and>
            (rc_concurrency s \<le> length (rc_executing s) \<or> rc_queue s = []))"
    and "\<And>i x. \<not> rc_raced s \<Longrightarrow> i \<in> set (rc_executing s) \<Longrightarrow>
           rc_promises s ! i = Pending x \<Longrightarrow> Raced (rc_race s) \<in> set (rc_reactions s ! i)"
    and "\<And>i r. \<not> rc_raced s \<Longrightarrow> i \<in> set (rc_executing s) \<Longrightarrow>
           rc_promises s ! i = Fulfilled r \<Longrightarrow> Win (rc_race s) r \<in> set (rc_jobs s)"
  shows "race_live s"
  unfolding race_live_def using assms by blast

lemma race_live_resume:
  "race_live s \<Longrightarrow> rc_returned s = None \<Longrightarrow> rc_raced s \<Longrightarrow> \<exists>w. Resume w \<in> set (rc_jobs s)"
  unfolding race_live_def by blast

lemma race_live_full:
  "race_live s \<Longrightarrow> \<not> rc_raced s \<Longrightarrow>
     (\<exists>r. Win (rc_race s) r \<in> set (rc_jobs s)) \<or>
     (rc_executing s \<noteq> [] \<and> (rc_concurrency s \<le> length (rc_executing s) \<or> rc_queue s = []))"
  unfolding race_live_def by blast

lemma race_live_watched:
  "race_live s \<Longrightarrow> \<not> rc_raced s \<Longrightarrow> i \<in> set (rc_executing s) \<Longrightarrow>
     rc_promises s ! i = Pending x \<Longrightarrow> Raced (rc_race s) \<in> set (rc_reactions s ! i)"
  unfolding race_live_def by blast

lemma race_live_won:
  "race_live s \<Longrightarrow> \<not> rc_raced s \<Longrightarrow> i \<in> set (rc_executing s) \<Longrightarrow>
     rc_promises s ! i = Fulfilled r \<Longrightarrow> Win (rc_race s) r \<in> set (rc_jobs s)"
  unfolding race_live_def by blast

lemma fill_fields:
  "rc_mode (fill s) = rc_mode s"
  "rc_concurrency (fill s) = rc_concurrency s"
  "rc_race (fill s) = rc_race s"
  "rc_raced (fill s) = rc_raced s"
  "rc_returned (fill s) = rc_returned s"
  "rc_results (fill s) = rc_results s"
proof -
  show "rc_mode (fill s) = rc_mode s"
    by (rule fill_rule[where P = "\<lambda>t. rc_mode t = rc_mode s"]) (simp_all add: spawn_any_fields)
  show "rc_concurrency (fill s) = rc_concurrency s"
    by (rule fill_rule[where P = "\<lambda>t. rc_concurrency t = rc_concurrency s"])
       (simp_all add: spawn_any_fields)
  show "rc_race (fill s) = rc_race s"
    by (rule fill_rule[where P = "\<lambda>t. rc_race t = rc_race s"]) (simp_all add: spawn_any_fields)
  show "rc_raced (fill s) = rc_raced s"
    by (rule fill_rule[where P = "\<lambda>t. rc_raced t = rc_raced s"]) (simp_all add: spawn_any_fields)
  show "rc_returned (fill s) = rc_returned s"
    by (rule fill_rule[where P = "\<lambda>t. rc_returned t = rc_returned s"])
       (simp_all add: spawn_any_fields)
  show "rc_results (fill s) = rc_results s"
    by (rule fill_rule[where P = "\<lambda>t. rc_results t = rc_results s"])
       (simp_all add: spawn_any_fields)
qed

lemma fill_executing_mono: "set (rc_executing s) \<subseteq> set (rc_executing (fill s))"
proof (rule fill_rule[where P = "\<lambda>t. set (rc_executing s) \<subseteq> set (rc_executing t)"])
  show "set (rc_executing s) \<subseteq> set (rc_executing s)" by simp
next
  fix u :: "('a, 'b) race" and th q
  assume "set (rc_executing s) \<subseteq> set (rc_executing u)"
  then show "set (rc_executing s) \<subseteq> set (rc_executing (spawn th (u\<lparr>rc_queue := q\<rparr>)))"
    using spawn_executing_mono[of "u\<lparr>rc_queue := q\<rparr>" th] by auto
qed

lemma fill_nonempty:
  assumes "1 \<le> rc_concurrency s" and "rc_executing s \<noteq> [] \<or> rc_queue s \<noteq> []"
  shows "rc_executing (fill s) \<noteq> []"
proof (cases "rc_executing s = []")
  case False
  then show ?thesis using fill_executing_mono[of s] by auto
next
  case True
  then obtain th q where q: "rc_queue s = th # q"
    using assms(2) by (cases "rc_queue s") auto
  have "fill s = fill (spawn th (s\<lparr>rc_queue := q\<rparr>))"
    using True q assms(1) by (subst fill.simps) simp
  moreover have "rc_executing (spawn th (s\<lparr>rc_queue := q\<rparr>)) \<noteq> []"
    by (rule spawn_executing_nonempty)
  ultimately show ?thesis
    using fill_executing_mono[of "spawn th (s\<lparr>rc_queue := q\<rparr>)"] by auto
qed

lemma race_live_loop_body:
  assumes "race_shape s" and "1 \<le> rc_concurrency s"
    and "rc_executing s \<noteq> [] \<or> rc_queue s \<noteq> []"
  shows "race_live (loop_body s)"
proof (rule race_liveI)
  let ?f = "fill s"
  let ?s = "loop_body s"
  have sh: "race_shape ?f" by (rule race_shape_fill[OF assms(1)])
  have open_: "\<not> rc_raced ?s" by (simp add: loop_body_def enter_race_fields)
  show "\<exists>w. Resume w \<in> set (rc_jobs ?s)" if "rc_raced ?s"
    using that open_ by simp
  have "rc_executing ?f \<noteq> []"
    by (rule fill_nonempty[OF assms(2,3)])
  then show "(\<exists>r. Win (rc_race ?s) r \<in> set (rc_jobs ?s)) \<or>
      (rc_executing ?s \<noteq> [] \<and> (rc_concurrency ?s \<le> length (rc_executing ?s) \<or> rc_queue ?s = []))"
    using fill_full[of s] by (simp add: loop_body_def enter_race_fields)
  show "Raced (rc_race ?s) \<in> set (rc_reactions ?s ! i)"
    if "i \<in> set (rc_executing ?s)" "rc_promises ?s ! i = Pending x" for i x
  proof -
    have i: "i \<in> set (rc_executing ?f)" and p: "rc_promises ?f ! i = Pending x"
      using that by (simp_all add: loop_body_def enter_race_fields)
    show ?thesis
      using enter_race_cover[OF i race_shape_member[OF sh i] race_shape_watch[OF sh]] p
      by (simp add: loop_body_def enter_race_fields)
  qed
  show "Win (rc_race ?s) r \<in> set (rc_jobs ?s)"
    if "i \<in> set (rc_executing ?s)" "rc_promises ?s ! i = Fulfilled r" for i r
  proof -
    have i: "i \<in> set (rc_executing ?f)" and p: "rc_promises ?f ! i = Fulfilled r"
      using that by (simp_all add: loop_body_def enter_race_fields)
    show ?thesis
      using enter_race_cover[OF i race_shape_member[OF sh i] race_shape_watch[OF sh]] p
      by (simp add: loop_body_def enter_race_fields)
  qed
qed

lemma race_live_settle:
  assumes "race_shape s" and "race_live s"
  shows "race_live (race_settle p s)"
proof (cases p s rule: race_settle_cases)
  case idle
  then show ?thesis using assms(2) by simp
next
  case (fulfil r)
  let ?s = "s\<lparr>rc_promises := (rc_promises s)[p := Fulfilled r],
           rc_jobs := rc_jobs s @ map (fire p r) (rc_reactions s ! p)\<rparr>"
  have pex: "p \<in> set (rc_executing s)"
    using race_shape_pending[OF assms(1) fulfil(1)] fulfil(2) by simp
  have "race_live ?s"
  proof (rule race_liveI)
    show "\<exists>w. Resume w \<in> set (rc_jobs ?s)" if "rc_returned ?s = None" "rc_raced ?s"
      using race_live_resume[OF assms(2)] that by auto
    show "(\<exists>r. Win (rc_race ?s) r \<in> set (rc_jobs ?s)) \<or>
        (rc_executing ?s \<noteq> [] \<and> (rc_concurrency ?s \<le> length (rc_executing ?s) \<or> rc_queue ?s = []))"
      if "\<not> rc_raced ?s"
      using race_live_full[OF assms(2)] that by auto
    show "Raced (rc_race ?s) \<in> set (rc_reactions ?s ! i)"
      if "\<not> rc_raced ?s" "i \<in> set (rc_executing ?s)" "rc_promises ?s ! i = Pending x" for i x
    proof -
      have "i \<noteq> p" using that(3) fulfil(1) by auto
      then show ?thesis using race_live_watched[OF assms(2), of i x] that by simp
    qed
    show "Win (rc_race ?s) r' \<in> set (rc_jobs ?s)"
      if "\<not> rc_raced ?s" "i \<in> set (rc_executing ?s)" "rc_promises ?s ! i = Fulfilled r'" for i r'
    proof (cases "i = p")
      case True
      then have "r' = r" using that(3) fulfil(1) by simp
      moreover have "Raced (rc_race s) \<in> set (rc_reactions s ! p)"
        using race_live_watched[OF assms(2) _ pex fulfil(2)] that(1) by simp
      ultimately have "Win (rc_race s) r' \<in> set (map (fire p r) (rc_reactions s ! p))"
        by (simp only: fire_Win)
      then show ?thesis by simp
    next
      case False
      then show ?thesis using race_live_won[OF assms(2), of i r'] that by simp
    qed
  qed
  then show ?thesis using fulfil(3) by simp
qed

lemma race_live_store_job:
  assumes "race_shape s" and "race_live s" and "rc_jobs s = Store p i r # js"
  shows "race_live (race_store p i r (s\<lparr>rc_jobs := js\<rparr>))"
proof (rule race_liveI)
  let ?s = "race_store p i r (s\<lparr>rc_jobs := js\<rparr>)"
  have pi: "p = i" and f: "rc_promises s ! i = Fulfilled r"
    using race_shape_store[OF assms(1), of p i r] assms(3) by simp_all
  show "\<exists>w. Resume w \<in> set (rc_jobs ?s)" if "rc_returned ?s = None" "rc_raced ?s"
    using race_live_resume[OF assms(2)] that assms(3) by (auto simp: race_store_fields)
  show "(\<exists>r. Win (rc_race ?s) r \<in> set (rc_jobs ?s)) \<or>
      (rc_executing ?s \<noteq> [] \<and> (rc_concurrency ?s \<le> length (rc_executing ?s) \<or> rc_queue ?s = []))"
    if "\<not> rc_raced ?s"
  proof -
    have o: "\<not> rc_raced s" using that by (simp add: race_store_fields)
    show ?thesis
    proof (cases "i \<in> set (rc_executing s)")
      case True
      have "Win (rc_race s) r \<in> set (rc_jobs s)"
        by (rule race_live_won[OF assms(2) o True f])
      then show ?thesis using assms(3) by (auto simp: race_store_fields)
    next
      case False
      then have "removeAll p (rc_executing s) = rc_executing s" using pi by simp
      then show ?thesis
        using race_live_full[OF assms(2) o] assms(3) by (auto simp: race_store_fields)
    qed
  qed
  show "Raced (rc_race ?s) \<in> set (rc_reactions ?s ! k)"
    if "\<not> rc_raced ?s" "k \<in> set (rc_executing ?s)" "rc_promises ?s ! k = Pending x" for k x
    using race_live_watched[OF assms(2), of k x] that by (simp add: race_store_fields)
  show "Win (rc_race ?s) r' \<in> set (rc_jobs ?s)"
    if "\<not> rc_raced ?s" "k \<in> set (rc_executing ?s)" "rc_promises ?s ! k = Fulfilled r'" for k r'
    using race_live_won[OF assms(2), of k r'] that assms(3) by (simp add: race_store_fields)
qed

lemma race_live_win_job:
  assumes "race_live s" and "rc_jobs s = Win k r # js"
  shows "race_live (race_win k r (s\<lparr>rc_jobs := js\<rparr>))"
proof (cases "k = rc_race s \<and> \<not> rc_raced s")
  case True
  show ?thesis
  proof (rule race_liveI)
    let ?s = "race_win k r (s\<lparr>rc_jobs := js\<rparr>)"
    have raced: "rc_raced ?s" using True by (simp add: race_win_fields)
    show "\<exists>w. Resume w \<in> set (rc_jobs ?s)"
      using True by (auto simp: race_win_fields)
    show "(\<exists>r. Win (rc_race ?s) r \<in> set (rc_jobs ?s)) \<or>
      (rc_executing ?s \<noteq> [] \<and> (rc_concurrency ?s \<le> length (rc_executing ?s) \<or> rc_queue ?s = []))"
      if "\<not> rc_raced ?s"
      using that raced by simp
    show "Raced (rc_race ?s) \<in> set (rc_reactions ?s ! i)" if "\<not> rc_raced ?s" for i
      using that raced by simp
    show "Win (rc_race ?s) r' \<in> set (rc_jobs ?s)" if "\<not> rc_raced ?s" for r'
      using that raced by simp
  qed
next
  case False
  let ?s = "race_win k r (s\<lparr>rc_jobs := js\<rparr>)"
  have jobs: "rc_jobs ?s = js" and raced: "rc_raced ?s = rc_raced s"
    using False by (auto simp: race_win_fields)
  have other: "Win (rc_race s) r' \<in> set js" if "\<not> rc_raced s" "Win (rc_race s) r' \<in> set (rc_jobs s)" for r'
    using that False assms(2) by auto
  show ?thesis
  proof (rule race_liveI)
    show "\<exists>w. Resume w \<in> set (rc_jobs ?s)" if "rc_returned ?s = None" "rc_raced ?s"
      using race_live_resume[OF assms(1)] that assms(2) unfolding jobs raced
      by (auto simp: race_win_fields)
    show "(\<exists>r. Win (rc_race ?s) r \<in> set (rc_jobs ?s)) \<or>
      (rc_executing ?s \<noteq> [] \<and> (rc_concurrency ?s \<le> length (rc_executing ?s) \<or> rc_queue ?s = []))"
      if "\<not> rc_raced ?s"
      using race_live_full[OF assms(1)] that other unfolding jobs raced
      by (auto simp: race_win_fields)
    show "Raced (rc_race ?s) \<in> set (rc_reactions ?s ! i)"
      if "\<not> rc_raced ?s" "i \<in> set (rc_executing ?s)" "rc_promises ?s ! i = Pending x" for i x
      using race_live_watched[OF assms(1), of i x] that unfolding raced
      by (simp add: race_win_fields)
    show "Win (rc_race ?s) r' \<in> set (rc_jobs ?s)"
      if "\<not> rc_raced ?s" "i \<in> set (rc_executing ?s)" "rc_promises ?s ! i = Fulfilled r'" for i r'
      using race_live_won[OF assms(1), of i r'] that other[of r'] unfolding jobs raced
      by (simp add: race_win_fields)
  qed
qed

text \<open>Changes that the loop does not see: the result of the call, and a job that is not a
  resolve job leaving the queue once the call has returned.\<close>

lemma race_live_returned:
  assumes "race_live s" and "rc_jobs s = Resume w # js"
  shows "race_live (s\<lparr>rc_jobs := js, rc_returned := Some a\<rparr>)"
proof (rule race_liveI)
  let ?s = "s\<lparr>rc_jobs := js, rc_returned := Some a\<rparr>"
  show "\<exists>w. Resume w \<in> set (rc_jobs ?s)" if "rc_returned ?s = None"
    using that by simp
  show "(\<exists>r. Win (rc_race ?s) r \<in> set (rc_jobs ?s)) \<or>
      (rc_executing ?s \<noteq> [] \<and> (rc_concurrency ?s \<le> length (rc_executing ?s) \<or> rc_queue ?s = []))"
    if "\<not> rc_raced ?s"
    using race_live_full[OF assms(1)] that assms(2) by auto
  show "Raced (rc_race ?s) \<in> set (rc_reactions ?s ! i)"
    if "\<not> rc_raced ?s" "i \<in> set (rc_executing ?s)" "rc_promises ?s ! i = Pending x" for i x
    using race_live_watched[OF assms(1), of i x] that by simp
  show "Win (rc_race ?s) r' \<in> set (rc_jobs ?s)"
    if "\<not> rc_raced ?s" "i \<in> set (rc_executing ?s)" "rc_promises ?s ! i = Fulfilled r'" for i r'
    using race_live_won[OF assms(1), of i r'] that assms(2) by simp
qed

lemma resolve_Some: "\<exists>b. resolve a x = Some b"
  by (cases x) (simp_all add: resolve_def)

lemma race_live_resume_job:
  assumes "race_shape s" and "race_live s" and "rc_jobs s = Resume w # js"
    and "1 \<le> rc_concurrency s"
  shows "race_live (race_resume w (s\<lparr>rc_jobs := js\<rparr>))"
proof -
  let ?p = "s\<lparr>rc_jobs := js\<rparr>"
  have ret: "race_live (?p\<lparr>rc_returned := resolve a (rc_returned ?p)\<rparr>)" for a
  proof -
    obtain b where "resolve a (rc_returned ?p) = Some b"
      using resolve_Some[of a "rc_returned ?p"] by blast
    then show ?thesis
      using race_live_returned[OF assms(2,3), of b] by simp
  qed
  show ?thesis
  proof (cases "isOk w \<or> rc_mode ?p = Settled")
    case False
    then obtain e where w: "w = Err e" and m: "rc_mode ?p = Default"
      by (cases w; cases "rc_mode ?p") simp_all
    show ?thesis
      unfolding w race_resume_err[OF m] by (rule ret)
  next
    case True
    show ?thesis
    proof (cases "rc_executing ?p \<noteq> [] \<or> rc_queue ?p \<noteq> []")
      case c: True
      have k: "1 \<le> rc_concurrency ?p" using assms(4) by simp
      show ?thesis
        unfolding race_resume_loop[OF True c]
        by (rule race_live_loop_body[OF race_shape_pop[OF assms(1,3)] k c])
    next
      case False
      then have e: "rc_executing ?p = []" and q: "rc_queue ?p = []" by simp_all
      show ?thesis
        unfolding race_resume_exit[OF True e q] by (rule ret)
    qed
  qed
qed

lemma race_live_tick:
  assumes "race_shape s" and "race_live s" and "1 \<le> rc_concurrency s"
  shows "race_live (race_tick s)"
proof (cases "rc_jobs s")
  case Nil
  then show ?thesis using assms(2) by (simp add: race_tick_def)
next
  case (Cons j js)
  show ?thesis
  proof (cases j)
    case (Store p i r)
    then show ?thesis
      using race_live_store_job[OF assms(1,2), of p i r js] Cons by (simp add: race_tick_def)
  next
    case (Win k r)
    then show ?thesis
      using race_live_win_job[OF assms(2), of k r js] Cons by (simp add: race_tick_def)
  next
    case (Resume w)
    then show ?thesis
      using race_live_resume_job[OF assms(1,2) _ assms(3), of w js] Cons by (simp add: race_tick_def)
  qed
qed

lemma race_step_concurrency: "rc_concurrency (race_step s ev) = rc_concurrency s"
proof (cases ev)
  case (Settle p)
  show ?thesis
    unfolding Settle by (cases p s rule: race_settle_cases) simp_all
next
  case Tick
  show ?thesis
  proof (cases "rc_jobs s")
    case Nil
    then show ?thesis using Tick by (simp add: race_tick_def)
  next
    case (Cons j js)
    have "rc_concurrency (race_resume w (s\<lparr>rc_jobs := js\<rparr>)) = rc_concurrency s" for w
      by (cases w "s\<lparr>rc_jobs := js\<rparr>" rule: race_resume_cases)
         (simp_all add: loop_body_def enter_race_fields fill_fields)
    then show ?thesis
      using Tick Cons by (cases j) (simp_all add: race_tick_def race_store_fields race_win_fields)
  qed
qed

lemma race_live_step:
  "race_shape s \<Longrightarrow> race_live s \<Longrightarrow> 1 \<le> rc_concurrency s \<Longrightarrow> race_live (race_step s ev)"
  by (cases ev) (simp_all add: race_live_settle race_live_tick)

lemma race_run_invariants:
  "race_shape s \<Longrightarrow> race_live s \<Longrightarrow> 1 \<le> rc_concurrency s \<Longrightarrow>
     race_shape (foldl race_step s evs) \<and> race_live (foldl race_step s evs) \<and>
     rc_concurrency (foldl race_step s evs) = rc_concurrency s"
proof (induction evs arbitrary: s)
  case Nil
  then show ?case by simp
next
  case (Cons ev evs)
  have "race_shape (race_step s ev)" by (rule race_shape_step[OF Cons.prems(1)])
  moreover have "race_live (race_step s ev)" by (rule race_live_step[OF Cons.prems])
  moreover have "1 \<le> rc_concurrency (race_step s ev)"
    using Cons.prems(3) by (simp add: race_step_concurrency)
  ultimately show ?case
    using Cons.IH[of "race_step s ev"] by (simp add: race_step_concurrency)
qed

lemma race_init_concurrency: "rc_concurrency (race_init ths m k) = k"
  by (simp add: race_init_def loop_body_def enter_race_fields fill_fields)


lemma race_live_init:
  assumes "1 \<le> k" and "ths \<noteq> []" and "\<And>th. th \<in> set ths \<Longrightarrow> own th"
  shows "race_live (race_init ths m k)"
  unfolding race_init_def
proof (rule race_live_loop_body)
  show "race_shape \<lparr>rc_mode = m, rc_concurrency = k, rc_promises = [], rc_reactions = [],
      rc_called = [], rc_executing = [], rc_queue = ths, rc_results = [], rc_index = 0,
      rc_race = 0, rc_raced = True, rc_jobs = [], rc_returned = None\<rparr>"
    by (rule race_shapeI) (simp_all add: assms(3))
qed (use assms in simp_all)

subsection \<open>With nothing queued, the loop waits on a full set\<close>

lemma race_idle_full:
  assumes "race_shape s" and "race_live s" and "rc_jobs s = []" and "rc_returned s = None"
  shows "rc_executing s \<noteq> [] \<and>
     (rc_concurrency s \<le> length (rc_executing s) \<or> rc_queue s = []) \<and>
     in_flight (rc_promises s) = length (rc_executing s)"
proof -
  have o: "\<not> rc_raced s"
    using race_live_resume[OF assms(2,4)] assms(3) by auto
  have "rc_executing s \<noteq> [] \<and> (rc_concurrency s \<le> length (rc_executing s) \<or> rc_queue s = [])"
    using race_live_full[OF assms(2) o] assms(3) by simp
  moreover have "in_flight (rc_promises s) = length (rc_executing s)"
    by (rule race_in_flight_idle[OF assms(1)]) (simp add: assms(3))
  ultimately show ?thesis by simp
qed

subsection \<open>The promises are those of the tasks\<close>

lemma race_tasks_same:
  assumes "race_tasks ts s" and "rc_promises t = rc_promises s" and "rc_queue t = rc_queue s"
  shows "race_tasks ts t"
  using assms(1) unfolding race_tasks_def assms(2,3) .

lemma race_tasks_spawn:
  assumes "race_tasks ts s" and "rc_queue s = th # q"
  shows "race_tasks ts (spawn th (s\<lparr>rc_queue := q\<rparr>))"
proof -
  obtain q0 where q0: "rc_queue s = map Makes q0"
    and eq: "map expect (rc_promises s) @ map outcome q0 = map outcome ts"
    using assms(1) unfolding race_tasks_def by blast
  obtain t q1 where t: "q0 = t # q1" "th = Makes t" "q = map Makes q1"
    using q0 assms(2) by (cases q0) auto
  have "rc_queue (spawn th (s\<lparr>rc_queue := q\<rparr>)) = map Makes q1"
    unfolding t(2) by (simp add: spawn_fields t(3))
  moreover have "map expect (rc_promises (spawn th (s\<lparr>rc_queue := q\<rparr>))) @ map outcome q1 =
      map outcome ts"
    unfolding t(2) using eq t(1) by (simp add: spawn_fields expect_start)
  ultimately show ?thesis unfolding race_tasks_def by blast
qed

lemma race_tasks_fill: "race_tasks ts s \<Longrightarrow> race_tasks ts (fill s)"
  by (rule fill_rule[where P = "race_tasks ts"]) (simp_all add: race_tasks_spawn)

lemma race_tasks_loop_body: "race_tasks ts s \<Longrightarrow> race_tasks ts (loop_body s)"
  unfolding loop_body_def
  by (rule race_tasks_same[OF race_tasks_fill]) (simp_all add: enter_race_fields)

lemma race_tasks_settle: "race_tasks ts s \<Longrightarrow> race_tasks ts (race_settle p s)"
proof (cases p s rule: race_settle_cases)
  case idle
  then show "race_tasks ts s \<Longrightarrow> ?thesis" by simp
next
  case (fulfil r)
  have "map expect ((rc_promises s)[p := Fulfilled r]) = map expect (rc_promises s)"
    using fulfil(1,2) by (simp add: map_update list_update_same_conv)
  then show "race_tasks ts s \<Longrightarrow> ?thesis"
    unfolding fulfil(3) race_tasks_def by simp
qed

lemma race_tasks_tick: "race_tasks ts s \<Longrightarrow> race_tasks ts (race_tick s)"
proof (cases "rc_jobs s")
  case Nil
  then show "race_tasks ts s \<Longrightarrow> ?thesis" by (simp add: race_tick_def)
next
  case (Cons j js)
  assume a: "race_tasks ts s"
  have p: "race_tasks ts (s\<lparr>rc_jobs := js\<rparr>)"
    by (rule race_tasks_same[OF a]) simp_all
  show ?thesis
  proof (cases j)
    case (Store p i r)
    have "race_tasks ts (race_store p i r (s\<lparr>rc_jobs := js\<rparr>))"
      by (rule race_tasks_same[OF a]) (simp_all add: race_store_fields)
    then show ?thesis using Store Cons by (simp add: race_tick_def)
  next
    case (Win k r)
    have "race_tasks ts (race_win k r (s\<lparr>rc_jobs := js\<rparr>))"
      by (rule race_tasks_same[OF a]) (simp_all add: race_win_fields)
    then show ?thesis using Win Cons by (simp add: race_tick_def)
  next
    case (Resume w)
    have "race_tasks ts (race_resume w (s\<lparr>rc_jobs := js\<rparr>))"
    proof (cases w "s\<lparr>rc_jobs := js\<rparr>" rule: race_resume_cases)
      case (returns a)
      show ?thesis unfolding returns by (rule race_tasks_same[OF p]) simp_all
    next
      case loops
      show ?thesis unfolding loops by (rule race_tasks_loop_body[OF p])
    qed
    then show ?thesis using Resume Cons by (simp add: race_tick_def)
  qed
qed

lemma race_tasks_step: "race_tasks ts s \<Longrightarrow> race_tasks ts (race_step s ev)"
  by (cases ev) (simp_all add: race_tasks_settle race_tasks_tick)

lemma race_tasks_run: "race_tasks ts s \<Longrightarrow> race_tasks ts (foldl race_step s evs)"
  by (induction evs arbitrary: s) (simp_all add: race_tasks_step)

lemma race_tasks_init: "race_tasks ts (race_init (map Makes ts) m k)"
  unfolding race_init_def
proof (rule race_tasks_loop_body)
  show "race_tasks ts \<lparr>rc_mode = m, rc_concurrency = k, rc_promises = [], rc_reactions = [],
      rc_called = [], rc_executing = [], rc_queue = map Makes ts, rc_results = [], rc_index = 0,
      rc_race = 0, rc_raced = True, rc_jobs = [], rc_returned = None\<rparr>"
    unfolding race_tasks_def by (rule exI[of _ ts]) simp
qed

lemma race_tasks_length:
  "race_tasks ts s \<Longrightarrow> length (rc_promises s) + length (rc_queue s) = length ts"
proof -
  assume "race_tasks ts s"
  then obtain q where "rc_queue s = map Makes q"
    and "map expect (rc_promises s) @ map outcome q = map outcome ts"
    unfolding race_tasks_def by blast
  then have "length (map expect (rc_promises s) @ map outcome q) = length (map outcome ts)"
    and "length (rc_queue s) = length q"
    by simp_all
  then show ?thesis by simp
qed



lemma race_step_mode: "rc_mode (race_step s ev) = rc_mode s"
proof (cases ev)
  case (Settle p)
  show ?thesis
    unfolding Settle by (cases p s rule: race_settle_cases) simp_all
next
  case Tick
  show ?thesis
  proof (cases "rc_jobs s")
    case Nil
    then show ?thesis using Tick by (simp add: race_tick_def)
  next
    case (Cons j js)
    have "rc_mode (race_resume w (s\<lparr>rc_jobs := js\<rparr>)) = rc_mode s" for w
      by (cases w "s\<lparr>rc_jobs := js\<rparr>" rule: race_resume_cases)
         (simp_all add: loop_body_def enter_race_fields fill_fields)
    then show ?thesis
      using Tick Cons by (cases j) (simp_all add: race_tick_def race_store_fields race_win_fields)
  qed
qed

lemma race_run_mode: "rc_mode (foldl race_step s evs) = rc_mode s"
  by (induction evs arbitrary: s) (simp_all add: race_step_mode)

subsection \<open>Writes to a JavaScript array\<close>





subsection \<open>In settled mode the results are kept by index\<close>



















subsection \<open>An empty list of thunks\<close>

text \<open>
  Called on its own with an empty list and a number, \<open>allLazy\<close> of \<open>src/all.ts\<close> awaits
  \<open>Promise.race\<close> of an empty set and never returns; \<open>all\<close> does not call it so.
\<close>

lemma allLazy_empty_bounded_waits:
  "rc_returned (foldl race_step (race_init [] m k) evs) = None"
proof -
  let ?s = "race_init ([] :: ('a, 'b) thunk list) m k"
  have f: "fill \<lparr>rc_mode = m, rc_concurrency = k, rc_promises = [], rc_reactions = [],
        rc_called = [], rc_executing = [], rc_queue = ([] :: ('a, 'b) thunk list),
        rc_results = [], rc_index = 0, rc_race = 0, rc_raced = True, rc_jobs = [],
        rc_returned = None\<rparr> =
      \<lparr>rc_mode = m, rc_concurrency = k, rc_promises = [], rc_reactions = [],
        rc_called = [], rc_executing = [], rc_queue = [], rc_results = [], rc_index = 0,
        rc_race = 0, rc_raced = True, rc_jobs = [], rc_returned = None\<rparr>"
    by (subst fill.simps) simp
  have s: "rc_promises ?s = [] \<and> rc_jobs ?s = [] \<and> rc_returned ?s = None"
    by (simp add: race_init_def loop_body_def f enter_race_def)
  have same: "race_step ?s ev = ?s" for ev
    using s by (cases ev) (simp_all add: race_settle_def race_tick_def)
  have "foldl race_step ?s evs = ?s"
    by (induction evs) (simp_all add: same)
  then show ?thesis using s by simp
qed

section \<open>Proofs: the pool of the other copy\<close>

lemma pool_invI:
  assumes "pl_nextIndex s = length (pl_promises s)"
    and "length (pl_promises s) \<le> length (pl_lazyPromises s)"
    and "in_flight (pl_promises s) + length (pl_jobs s) \<le> k"
    and "\<not> pl_done s \<Longrightarrow> pl_nextIndex s < length (pl_lazyPromises s) \<Longrightarrow>
           in_flight (pl_promises s) + length (pl_jobs s) = k"
    and "pl_done s \<Longrightarrow> pl_returned s \<noteq> None"
  shows "pool_inv k s"
  unfolding pool_inv_def using assms by blast

lemma pool_inv_index: "pool_inv k s \<Longrightarrow> pl_nextIndex s = length (pl_promises s)"
  unfolding pool_inv_def by blast

lemma pool_inv_started: "pool_inv k s \<Longrightarrow> length (pl_promises s) \<le> length (pl_lazyPromises s)"
  unfolding pool_inv_def by blast

lemma pool_inv_bound: "pool_inv k s \<Longrightarrow> in_flight (pl_promises s) + length (pl_jobs s) \<le> k"
  unfolding pool_inv_def by blast

lemma pool_inv_full:
  "pool_inv k s \<Longrightarrow> \<not> pl_done s \<Longrightarrow> pl_nextIndex s < length (pl_lazyPromises s) \<Longrightarrow>
     in_flight (pl_promises s) + length (pl_jobs s) = k"
  unfolding pool_inv_def by blast

lemma pool_inv_done: "pool_inv k s \<Longrightarrow> pl_done s \<Longrightarrow> pl_returned s \<noteq> None"
  unfolding pool_inv_def by blast

lemma in_flight_snoc: "in_flight (ps @ [p]) = in_flight ps + (if is_pending p then 1 else 0)"
  by (simp add: in_flight_def)

text \<open>A thunk that is started adds one to the operations in flight and callbacks queued.\<close>

lemma runNext_cases:
  obtains (stays) "runNext s = s" "pl_done s \<or> length (pl_lazyPromises s) \<le> pl_nextIndex s"
  | (starts) p where "\<not> pl_done s" "pl_nextIndex s < length (pl_lazyPromises s)"
      "pl_mode (runNext s) = pl_mode s" "pl_lazyPromises (runNext s) = pl_lazyPromises s"
      "pl_nextIndex (runNext s) = pl_nextIndex s + 1"
      "pl_promises (runNext s) = pl_promises s @ [p]"
      "pl_done (runNext s) = pl_done s" "pl_returned (runNext s) = pl_returned s"
      "pl_results (runNext s) = pl_results s" "pl_remaining (runNext s) = pl_remaining s"
      "in_flight (pl_promises (runNext s)) + length (pl_jobs (runNext s)) =
         in_flight (pl_promises s) + length (pl_jobs s) + 1"
proof (cases "pl_done s \<or> length (pl_lazyPromises s) \<le> pl_nextIndex s")
  case True
  then show ?thesis using stays by (simp add: runNext_def)
next
  case False
  let ?p = "start (pl_lazyPromises s ! pl_nextIndex s)"
  have "in_flight (pl_promises (runNext s)) + length (pl_jobs (runNext s)) =
         in_flight (pl_promises s) + length (pl_jobs s) + 1"
    using False by (cases ?p) (simp_all add: runNext_def Let_def in_flight_snoc)
  then show ?thesis
    using False by (intro starts[of ?p]) (simp_all add: runNext_def Let_def)
qed

lemma pool_inv_runNext:
  assumes "pl_nextIndex s = length (pl_promises s)"
    and "length (pl_promises s) \<le> length (pl_lazyPromises s)"
    and "in_flight (pl_promises s) + length (pl_jobs s) + 1 \<le> k"
    and "\<not> pl_done s \<Longrightarrow> pl_nextIndex s < length (pl_lazyPromises s) \<Longrightarrow>
           in_flight (pl_promises s) + length (pl_jobs s) + 1 = k"
    and "pl_done s \<Longrightarrow> pl_returned s \<noteq> None"
  shows "pool_inv k (runNext s)"
proof (cases s rule: runNext_cases)
  case stays
  show ?thesis
    unfolding stays(1)
  proof (rule pool_invI)
    show "in_flight (pl_promises s) + length (pl_jobs s) \<le> k" using assms(3) by simp
    show "in_flight (pl_promises s) + length (pl_jobs s) = k"
      if "\<not> pl_done s" "pl_nextIndex s < length (pl_lazyPromises s)"
      using that stays(2) by simp
  qed (use assms in simp_all)
next
  case (starts p)
  show ?thesis
  proof (rule pool_invI)
    show "pl_nextIndex (runNext s) = length (pl_promises (runNext s))"
      unfolding starts using assms(1) by simp
    show "length (pl_promises (runNext s)) \<le> length (pl_lazyPromises (runNext s))"
      unfolding starts using assms(1) starts(2) by simp
    show "in_flight (pl_promises (runNext s)) + length (pl_jobs (runNext s)) \<le> k"
      unfolding starts(11) by (rule assms(3))
    show "in_flight (pl_promises (runNext s)) + length (pl_jobs (runNext s)) = k"
      unfolding starts(11) by (rule assms(4)[OF starts(1,2)])
    show "pl_returned (runNext s) \<noteq> None" if "pl_done (runNext s)"
      using that starts(1) unfolding starts(7) by simp
  qed
qed

lemma pool_inv_resolveOuter:
  assumes "pl_nextIndex s = length (pl_promises s)"
    and "length (pl_promises s) \<le> length (pl_lazyPromises s)"
    and "in_flight (pl_promises s) + length (pl_jobs s) + 1 \<le> k"
  shows "pool_inv k (resolveOuter a s)"
proof (rule pool_invI)
  show "pl_returned (resolveOuter a s) \<noteq> None"
    using resolve_Some[of a "pl_returned s"] by (auto simp: resolveOuter_def)
qed (use assms in \<open>simp_all add: resolveOuter_def\<close>)

lemma pool_inv_after:
  assumes "pl_nextIndex s = length (pl_promises s)"
    and "length (pl_promises s) \<le> length (pl_lazyPromises s)"
    and "in_flight (pl_promises s) + length (pl_jobs s) + 1 \<le> k"
    and "\<not> pl_done s \<Longrightarrow> pl_nextIndex s < length (pl_lazyPromises s) \<Longrightarrow>
           in_flight (pl_promises s) + length (pl_jobs s) + 1 = k"
    and "pl_done s \<Longrightarrow> pl_returned s \<noteq> None"
  shows "pool_inv k (pool_after s)"
proof -
  let ?s1 = "s\<lparr>pl_remaining := pl_remaining s - 1\<rparr>"
  show ?thesis
  proof (cases "pl_remaining s - 1 = 0")
    case True
    have "pool_inv k (resolveOuter a ?s1)" for a
      by (rule pool_inv_resolveOuter) (use assms in simp_all)
    then show ?thesis using True by (simp add: pool_after_def Let_def)
  next
    case False
    have "pool_inv k (runNext ?s1)"
      by (rule pool_inv_runNext) (use assms in simp_all)
    then show ?thesis using False by (simp add: pool_after_def Let_def)
  qed
qed

lemma pool_inv_tick:
  assumes "pool_inv k s"
  shows "pool_inv k (pool_tick s)"
proof (cases "pl_jobs s")
  case Nil
  then show ?thesis using assms by (simp add: pool_tick_def)
next
  case (Cons j js)
  obtain i r where j: "j = (i, r)" by (cases j)
  let ?p = "s\<lparr>pl_jobs := js\<rparr>"
  have a: "pl_nextIndex ?p = length (pl_promises ?p)"
    using pool_inv_index[OF assms] by simp
  have b: "length (pl_promises ?p) \<le> length (pl_lazyPromises ?p)"
    using pool_inv_started[OF assms] by simp
  have c: "in_flight (pl_promises ?p) + length (pl_jobs ?p) + 1 \<le> k"
    using pool_inv_bound[OF assms] Cons by simp
  have d: "in_flight (pl_promises ?p) + length (pl_jobs ?p) + 1 = k"
    if "\<not> pl_done ?p" "pl_nextIndex ?p < length (pl_lazyPromises ?p)"
    using pool_inv_full[OF assms] that Cons by simp
  have e: "pl_returned ?p \<noteq> None" if "pl_done ?p"
    using pool_inv_done[OF assms] that by simp
  have after: "pool_inv k (pool_after (?p\<lparr>pl_results := x\<rparr>))" for x
    by (rule pool_inv_after) (use a b c d e in simp_all)
  have "pool_inv k (pool_then i r ?p)"
  proof (cases "pl_mode ?p = Settled")
    case True
    then show ?thesis using after by (simp add: pool_then_def)
  next
    case False
    show ?thesis
    proof (cases r)
      case (Ok v)
      then show ?thesis using False after by (simp add: pool_then_def)
    next
      case (Err e')
      have "pool_inv k (resolveOuter (Res (Err e')) ?p)"
        by (rule pool_inv_resolveOuter[OF a b c])
      then show ?thesis using False Err by (simp add: pool_then_def)
    qed
  qed
  then show ?thesis using Cons j by (simp add: pool_tick_def)
qed

lemma pool_settle_cases:
  obtains (idle) "pool_settle i s = s"
  | (fulfil) r where "i < length (pl_promises s)" "pl_promises s ! i = Pending (Some r)"
      "pool_settle i s =
         s\<lparr>pl_promises := (pl_promises s)[i := Fulfilled r], pl_jobs := pl_jobs s @ [(i, r)]\<rparr>"
proof (cases "i < length (pl_promises s)")
  case False
  then show ?thesis using idle by (simp add: pool_settle_def)
next
  case True
  show ?thesis
  proof (cases "pl_promises s ! i")
    case (Fulfilled r)
    then show ?thesis using idle True by (simp add: pool_settle_def)
  next
    case (Pending x)
    show ?thesis
    proof (cases x)
      case None
      then show ?thesis using idle True Pending by (simp add: pool_settle_def)
    next
      case (Some r)
      then show ?thesis using fulfil[of r] True Pending by (simp add: pool_settle_def)
    qed
  qed
qed

lemma pool_inv_settle:
  assumes "pool_inv k s"
  shows "pool_inv k (pool_settle i s)"
proof (cases i s rule: pool_settle_cases)
  case idle
  then show ?thesis using assms by simp
next
  case (fulfil r)
  have fl: "in_flight ((pl_promises s)[i := Fulfilled r]) + 1 = in_flight (pl_promises s)"
    using in_flight_update[OF fulfil(1), of r] fulfil(2) by simp
  show ?thesis
    unfolding fulfil(3)
  proof (rule pool_invI)
    let ?s = "s\<lparr>pl_promises := (pl_promises s)[i := Fulfilled r], pl_jobs := pl_jobs s @ [(i, r)]\<rparr>"
    show "pl_nextIndex ?s = length (pl_promises ?s)"
      using pool_inv_index[OF assms] by simp
    show "length (pl_promises ?s) \<le> length (pl_lazyPromises ?s)"
      using pool_inv_started[OF assms] by simp
    show "in_flight (pl_promises ?s) + length (pl_jobs ?s) \<le> k"
      using pool_inv_bound[OF assms] fl by simp
    show "in_flight (pl_promises ?s) + length (pl_jobs ?s) = k"
      if "\<not> pl_done ?s" "pl_nextIndex ?s < length (pl_lazyPromises ?s)"
      using pool_inv_full[OF assms] that fl by simp
    show "pl_returned ?s \<noteq> None" if "pl_done ?s"
      using pool_inv_done[OF assms] that by simp
  qed
qed

lemma pool_inv_step: "pool_inv k s \<Longrightarrow> pool_inv k (pool_step s ev)"
  by (cases ev) (simp_all add: pool_inv_settle pool_inv_tick)

lemma pool_inv_run: "pool_inv k s \<Longrightarrow> pool_inv k (foldl pool_step s evs)"
  by (induction evs arbitrary: s) (simp_all add: pool_inv_step)

text \<open>The first \<open>j\<close> calls of \<open>runNext\<close> start the first \<open>j\<close> thunks.\<close>

lemma runNext_first:
  assumes "j \<le> length ts"
  shows "pl_nextIndex ((runNext ^^ j) \<lparr>pl_mode = m, pl_lazyPromises = ts, pl_promises = [],
           pl_results = rs, pl_nextIndex = 0, pl_remaining = n, pl_done = False, pl_jobs = [],
           pl_returned = None\<rparr>) = j
       \<and> length (pl_promises ((runNext ^^ j) \<lparr>pl_mode = m, pl_lazyPromises = ts, pl_promises = [],
           pl_results = rs, pl_nextIndex = 0, pl_remaining = n, pl_done = False, pl_jobs = [],
           pl_returned = None\<rparr>)) = j
       \<and> pl_lazyPromises ((runNext ^^ j) \<lparr>pl_mode = m, pl_lazyPromises = ts, pl_promises = [],
           pl_results = rs, pl_nextIndex = 0, pl_remaining = n, pl_done = False, pl_jobs = [],
           pl_returned = None\<rparr>) = ts
       \<and> \<not> pl_done ((runNext ^^ j) \<lparr>pl_mode = m, pl_lazyPromises = ts, pl_promises = [],
           pl_results = rs, pl_nextIndex = 0, pl_remaining = n, pl_done = False, pl_jobs = [],
           pl_returned = None\<rparr>)
       \<and> in_flight (pl_promises ((runNext ^^ j) \<lparr>pl_mode = m, pl_lazyPromises = ts, pl_promises = [],
           pl_results = rs, pl_nextIndex = 0, pl_remaining = n, pl_done = False, pl_jobs = [],
           pl_returned = None\<rparr>))
         + length (pl_jobs ((runNext ^^ j) \<lparr>pl_mode = m, pl_lazyPromises = ts, pl_promises = [],
           pl_results = rs, pl_nextIndex = 0, pl_remaining = n, pl_done = False, pl_jobs = [],
           pl_returned = None\<rparr>)) = j"
  using assms
proof (induction j)
  case 0
  then show ?case by (simp add: in_flight_def)
next
  case (Suc j)
  let ?s = "(runNext ^^ j) \<lparr>pl_mode = m, pl_lazyPromises = ts, pl_promises = [],
           pl_results = rs, pl_nextIndex = 0, pl_remaining = n, pl_done = False, pl_jobs = [],
           pl_returned = None\<rparr>"
  have ih: "pl_nextIndex ?s = j" "length (pl_promises ?s) = j" "pl_lazyPromises ?s = ts"
    "\<not> pl_done ?s" "in_flight (pl_promises ?s) + length (pl_jobs ?s) = j"
    using Suc by simp_all
  show ?case
  proof (cases ?s rule: runNext_cases)
    case stays
    then show ?thesis using ih Suc.prems by simp
  next
    case (starts p)
    show ?thesis
      using starts(3-11) ih by simp
  qed
qed

lemma pool_init_inv: "pool_inv k (pool_init ts m k)"
proof (cases "ts = []")
  case True
  show ?thesis
    by (rule pool_invI) (simp_all add: pool_init_def True in_flight_def)
next
  case False
  let ?j = "min k (length ts)"
  let ?s = "(runNext ^^ ?j) \<lparr>pl_mode = m, pl_lazyPromises = ts, pl_promises = [],
           pl_results = replicate (length ts) Hole, pl_nextIndex = 0,
           pl_remaining = int (length ts), pl_done = False, pl_jobs = [], pl_returned = None\<rparr>"
  have eq: "pool_init ts m k = ?s" using False by (simp add: pool_init_def)
  have j: "?j \<le> length ts" by simp
  note f = runNext_first[OF j, of m "replicate (length ts) Hole" "int (length ts)"]
  show ?thesis
    unfolding eq
  proof (rule pool_invI)
    show "pl_nextIndex ?s = length (pl_promises ?s)" using f by simp
    show "length (pl_promises ?s) \<le> length (pl_lazyPromises ?s)" using f by simp
    show "in_flight (pl_promises ?s) + length (pl_jobs ?s) \<le> k" using f by simp
    show "in_flight (pl_promises ?s) + length (pl_jobs ?s) = k"
      if "pl_nextIndex ?s < length (pl_lazyPromises ?s)"
    proof -
      have "?j < length ts" using that f by simp
      then have "?j = k" by simp
      then show ?thesis using f by simp
    qed
    show "pl_returned ?s \<noteq> None" if "pl_done ?s" using that f by simp
  qed
qed

lemma pool_init_started: "length (pl_promises (pool_init ts m k)) = min k (length ts)"
proof (cases "ts = []")
  case True
  then show ?thesis by (simp add: pool_init_def)
next
  case False
  have j: "min k (length ts) \<le> length ts" by simp
  show ?thesis
    using runNext_first[OF j, of m "replicate (length ts) Hole" "int (length ts)"] False
    by (simp add: pool_init_def)
qed

lemma pool_step_lazyPromises: "pl_lazyPromises (pool_step s ev) = pl_lazyPromises s"
proof (cases ev)
  case (Settle i)
  show ?thesis unfolding Settle by (cases i s rule: pool_settle_cases) simp_all
next
  case Tick
  have r: "pl_lazyPromises (runNext u) = pl_lazyPromises u" for u :: "('a, 'b) pool"
    by (cases u rule: runNext_cases) simp_all
  have a: "pl_lazyPromises (pool_after u) = pl_lazyPromises u" for u :: "('a, 'b) pool"
    by (simp add: pool_after_def Let_def resolveOuter_def r)
  have "pl_lazyPromises (pool_then i r u) = pl_lazyPromises u" for i r and u :: "('a, 'b) pool"
    by (cases r) (simp_all add: pool_then_def a resolveOuter_def)
  then show ?thesis
    using Tick by (cases "pl_jobs s") (auto simp: pool_tick_def)
qed

lemma pool_run_lazyPromises: "pl_lazyPromises (foldl pool_step s evs) = pl_lazyPromises s"
  by (induction evs arbitrary: s) (simp_all add: pool_step_lazyPromises)

lemma pool_init_lazyPromises: "pl_lazyPromises (pool_init ts m k) = ts"
proof (cases "ts = []")
  case True
  then show ?thesis by (simp add: pool_init_def)
next
  case False
  have j: "min k (length ts) \<le> length ts" by simp
  show ?thesis
    using runNext_first[OF j, of m "replicate (length ts) Hole" "int (length ts)"] False
    by (simp add: pool_init_def)
qed

section \<open>The paths that keep the first Error\<close>

text \<open>
  In \<open>allEager\<close> and in the pool of the other copy the callback itself resolves the call:
  in default mode the first callback that runs with an Error, while the call has not
  returned, makes it return that Error, whatever is still pending; and what a call has
  returned never changes.
\<close>

lemma eager_first_error:
  assumes "eg_mode s = Default" and "eg_returned s = None" and "eg_jobs s = (i, Err e) # js"
  shows "eg_returned (eager_tick s) = Some (Res (Err e))"
  using assms by (simp add: eager_tick_def eager_then_def resolve_def)

lemma eager_returned_stable:
  assumes "eg_returned s = Some a"
  shows "eg_returned (eager_step s ev) = Some a"
proof (cases ev)
  case (Settle i)
  then show ?thesis
    using assms by (simp add: eager_settle_def split: promise.splits option.splits)
next
  case Tick
  have "eg_returned (eager_then i r u) = Some a" if "eg_returned u = Some a" for i r u
    using that by (cases r) (simp_all add: eager_then_def Let_def resolve_def)
  then show ?thesis
    using Tick assms by (cases "eg_jobs s") (auto simp: eager_tick_def)
qed

lemma pool_first_error:
  assumes "pl_mode s = Default" and "pl_returned s = None" and "pl_jobs s = (i, Err e) # js"
  shows "pl_returned (pool_tick s) = Some (Res (Err e))"
  using assms by (simp add: pool_tick_def pool_then_def resolveOuter_def resolve_def)

lemma pool_returned_stable:
  assumes "pl_returned s = Some a"
  shows "pl_returned (pool_step s ev) = Some a"
proof (cases ev)
  case (Settle i)
  show ?thesis
    unfolding Settle using assms by (cases i s rule: pool_settle_cases) simp_all
next
  case Tick
  have n: "pl_returned (runNext u) = pl_returned u" for u :: "('a, 'b) pool"
    by (cases u rule: runNext_cases) simp_all
  have o: "pl_returned (resolveOuter b u) = Some a" if "pl_returned u = Some a" for b u
    using that by (simp add: resolveOuter_def resolve_def)
  have f: "pl_returned (pool_after u) = Some a" if "pl_returned u = Some a" for u
    using that by (simp add: pool_after_def Let_def n o)
  have "pl_returned (pool_then i r u) = Some a" if "pl_returned u = Some a" for i r u
    using that by (cases r) (simp_all add: pool_then_def f o)
  then show ?thesis
    using Tick assms by (cases "pl_jobs s") (auto simp: pool_tick_def)
qed

subsection \<open>The loop comes to rest\<close>










































section \<open>Proofs: settled mode\<close>









text \<open>
  A run of the bounded loop in settled mode on thunks that share a promise,
  \<open>all([() => p, () => p, () => q], {mode: "settled", concurrency: 2})\<close>: the array
  returned holds the Result of \<open>p\<close> twice and the Result of \<open>q\<close>.
\<close>

lemma settled_shared_promise:
  "returned (run (Thunks [Makes (Deferred (Ok (1::nat))), Returns 0, Makes (Deferred (Err (2::nat)))])
       (Some \<lparr>opt_mode = Some Settled, opt_concurrency = Some (Limit 2)\<rparr>)
       [Settle 0, Tick, Tick, Tick, Tick, Settle 1, Tick, Tick, Tick, Tick]) =
     Some (Arr [Outcome (Ok 1), Outcome (Ok 1), Outcome (Err 2)])"
  by code_simp

section \<open>Proofs: the concurrency limit\<close>

text \<open>Thunks that each return a promise of their own.\<close>

lemma race_init_started:
  "length (rc_promises (race_init (map Makes ts) m k)) = min k (length ts)"
proof -
  let ?s0 = "\<lparr>rc_mode = m, rc_concurrency = k, rc_promises = [], rc_reactions = [],
      rc_called = [], rc_executing = [], rc_queue = map Makes ts, rc_results = [],
      rc_index = 0, rc_race = 0, rc_raced = True, rc_jobs = [], rc_returned = None\<rparr>"
  let ?f = "fill ?s0"
  have sh0: "race_shape ?s0" by (rule race_shapeI) auto
  have tk0: "race_tasks ts ?s0"
    unfolding race_tasks_def by (rule exI[of _ ts]) simp
  have "race_shape ?f \<and> length (rc_promises ?f) = length (rc_executing ?f)"
  proof (rule fill_rule[where P = "\<lambda>t. race_shape t \<and> length (rc_promises t) = length (rc_executing t)"])
    show "race_shape ?s0 \<and> length (rc_promises ?s0) = length (rc_executing ?s0)"
      using sh0 by simp
  next
    fix u :: "('a, 'b) race" and th q
    assume u: "race_shape u \<and> length (rc_promises u) = length (rc_executing u)"
      and q: "rc_queue u = th # q" and l: "length (rc_executing u) < rc_concurrency u"
    have "own th" using race_shape_own[of u th] u q by simp
    then obtain t where th: "th = Makes t" using own_Makes by blast
    have "length (rc_promises u) \<notin> set (rc_executing u)"
      using race_shape_member[of u "length (rc_promises u)"] u by auto
    then have "length (rc_promises (spawn th (u\<lparr>rc_queue := q\<rparr>))) =
        length (rc_executing (spawn th (u\<lparr>rc_queue := q\<rparr>)))"
      unfolding th using u by (simp add: spawn_fields set_add_new)
    then show "race_shape (spawn th (u\<lparr>rc_queue := q\<rparr>)) \<and>
        length (rc_promises (spawn th (u\<lparr>rc_queue := q\<rparr>))) =
        length (rc_executing (spawn th (u\<lparr>rc_queue := q\<rparr>)))"
      using race_shape_spawn[OF _ q l] u by simp
  qed
  then have eq: "length (rc_promises ?f) = length (rc_executing ?f)" by simp
  have bound: "length (rc_executing ?f) \<le> k"
    using race_shape_bound[OF race_shape_fill[OF sh0]] by (simp add: fill_fields)
  have total: "length (rc_promises ?f) + length (rc_queue ?f) = length ts"
    by (rule race_tasks_length[OF race_tasks_fill[OF tk0]])
  have full: "k \<le> length (rc_executing ?f) \<or> rc_queue ?f = []"
    using fill_full[of ?s0] by (simp add: fill_fields)
  have "length (rc_promises ?f) = min k (length ts)"
    using eq bound total full by auto
  then show ?thesis
    by (simp add: race_init_def loop_body_def enter_race_fields)
qed

lemma run_pooling: "foldl call_step_alt (Pooling s) evs = Pooling (foldl pool_step s evs)"
  by (induction evs arbitrary: s) simp_all

lemma eager_run_promises_length:
  "length (eg_promises (foldl eager_step s evs)) = length (eg_promises s)"
proof -
  have "length (map expect (eg_promises (foldl eager_step s evs))) = length (map expect (eg_promises s))"
    by (simp only: eager_run_expect)
  then show ?thesis by simp
qed

text \<open>
  The bounded loop of \<open>src/all.ts\<close> on a non-empty list of thunks that each return a
  promise of their own: the limit is kept, and with no job queued the set is full while the
  call has not returned and thunks are left.
\<close>

lemma race_limit:
  assumes "1 \<le> k" and "ts \<noteq> []"
    and "s = foldl race_step (race_init (map Makes ts) m k) evs"
  shows "in_flight (rc_promises s) \<le> k"
    and "rc_jobs s = [] \<and> rc_returned s = None \<and> length (rc_promises s) < length ts \<longrightarrow>
           in_flight (rc_promises s) = k"
proof -
  let ?i = "race_init (map Makes ts) m k"
  have own: "own th" if "th \<in> set (map Makes ts)" for th
    using that by auto
  have ne: "map Makes ts \<noteq> []" using assms(2) by simp
  have k: "1 \<le> rc_concurrency ?i" using assms(1) by (simp add: race_init_concurrency)
  note inv = race_run_invariants[OF race_shape_init[OF own] race_live_init[OF assms(1) ne own] k,
      where evs = evs]
  have sh: "race_shape s" and lv: "race_live s" and c: "rc_concurrency s = k"
    using inv unfolding assms(3) by (simp_all add: race_init_concurrency)
  have tk: "race_tasks ts s"
    unfolding assms(3) by (rule race_tasks_run[OF race_tasks_init])
  show "in_flight (rc_promises s) \<le> k"
    using race_in_flight_bound[OF sh] c by simp
  show "rc_jobs s = [] \<and> rc_returned s = None \<and> length (rc_promises s) < length ts \<longrightarrow>
           in_flight (rc_promises s) = k"
  proof
    assume a: "rc_jobs s = [] \<and> rc_returned s = None \<and> length (rc_promises s) < length ts"
    then have j: "rc_jobs s = []" and n: "rc_returned s = None" by simp_all
    note f = race_idle_full[OF sh lv j n]
    have "rc_queue s \<noteq> []"
      using race_tasks_length[OF tk] a by auto
    then have "k \<le> length (rc_executing s)" using f c by simp
    then have "length (rc_executing s) = k"
      using race_shape_bound[OF sh] c by simp
    then show "in_flight (rc_promises s) = k" using f by simp
  qed
qed

text \<open>The pool of the other copy.\<close>

lemma pool_limit:
  assumes "s = foldl pool_step (pool_init ts m k) evs"
  shows "in_flight (pl_promises s) \<le> k"
    and "pl_jobs s = [] \<and> pl_returned s = None \<and> length (pl_promises s) < length ts \<longrightarrow>
           in_flight (pl_promises s) = k"
proof -
  have inv: "pool_inv k s"
    unfolding assms by (rule pool_inv_run[OF pool_init_inv])
  have ts: "pl_lazyPromises s = ts"
    unfolding assms by (simp add: pool_run_lazyPromises pool_init_lazyPromises)
  show "in_flight (pl_promises s) \<le> k"
    using pool_inv_bound[OF inv] by simp
  show "pl_jobs s = [] \<and> pl_returned s = None \<and> length (pl_promises s) < length ts \<longrightarrow>
           in_flight (pl_promises s) = k"
  proof
    assume a: "pl_jobs s = [] \<and> pl_returned s = None \<and> length (pl_promises s) < length ts"
    then have "\<not> pl_done s" using pool_inv_done[OF inv] by auto
    moreover have "pl_nextIndex s < length (pl_lazyPromises s)"
      using a ts pool_inv_index[OF inv] by simp
    ultimately show "in_flight (pl_promises s) = k"
      using pool_inv_full[OF inv] a by simp
  qed
qed


text \<open>
  C4 (evaluated). Three thunks with \<open>concurrency: 2\<close>, of which the second returns the
  promise of the first: \<open>all([() => p, () => p, () => q], {concurrency: 2})\<close>. Adding
  \<open>p\<close> to the set \<open>executing\<close> a second time leaves its size at one, so the inner loop
  of \<open>src/all.ts\<close> calls the third thunk as well: before any event three tasks are
  started and none has completed. The pool of the other copy starts two.
\<close>

theorem race_starts_more_than_limit:
  "length (promises_of (all_ts
       (Thunks [Makes (Deferred (Ok (1::nat))), Returns 0, Makes (Deferred (Ok (2::nat)))])
       (Some \<lparr>opt_mode = None, opt_concurrency = Some (Limit 2)\<rparr>))) = 3
   \<and> in_flight (promises_of (all_ts
       (Thunks [Makes (Deferred (Ok (1::nat))), Returns 0, Makes (Deferred (Ok (2::nat)))])
       (Some \<lparr>opt_mode = None, opt_concurrency = Some (Limit 2)\<rparr>))) = 3
   \<and> returned (all_ts
       (Thunks [Makes (Deferred (Ok (1::nat))), Returns 0, Makes (Deferred (Ok (2::nat)))])
       (Some \<lparr>opt_mode = None, opt_concurrency = Some (Limit 2)\<rparr>)) = None
   \<and> length (promises_of_alt (all_alt
       (Thunks [Makes (Deferred (Ok (1::nat))), Returns 0, Makes (Deferred (Ok (2::nat)))])
       (Some \<lparr>opt_mode = None, opt_concurrency = Some (Limit 2)\<rparr>))) = 2
   \<and> in_flight (promises_of_alt (all_alt
       (Thunks [Makes (Deferred (Ok (1::nat))), Returns 0, Makes (Deferred (Ok (2::nat)))])
       (Some \<lparr>opt_mode = None, opt_concurrency = Some (Limit 2)\<rparr>))) = 2"
  by code_simp

end
